theory Spec2Isabelle
  imports Main "HOL-Library.Word" "HOL-Library.AList" "HOL-Library.Multiset"
    "HOL-Library.Monad_Syntax"
begin

unbundle bit_operations_syntax

section \<open>Data model\<close>

text \<open>
  Identifiers (\<open>ids.ID\<close>, \<open>ids.ShortID\<close>, \<open>ids.NodeID\<close>) are fixed-length byte
  strings compared bytewise; they are numbered here, the order of the numbers standing
  for the bytewise order. A \<open>time.Time\<close> is its number of seconds since the Unix
  epoch; \<open>Before\<close>, \<open>After\<close> and \<open>Equal\<close> are \<open><\<close>, \<open>>\<close> and \<open>=\<close>. The zero
  value \<open>time.Time{}\<close> is the first second of year 1.
\<close>

type_synonym ID = nat
type_synonym ShortID = nat
type_synonym NodeID = nat
type_synonym Time = int
type_synonym uint64 = "64 word"
type_synonym uint32 = "32 word"

datatype error =
    ErrMissingParentState ID
  | ErrNotFound
  | ErrWrongLockMode
  | ErrKeyMissing
  | ErrNoUTXOsForImport
  | ErrTxIsNotCommitted
  | ErrWrongTxType
  | ErrNotSECPOwner
  | ErrOther nat
  | ErrWrapped string error

datatype LockState = StateUnlocked | StateDeposited | StateBonded | StateDepositedBonded

record OutputOwners =
  Locktime :: uint64
  Threshold :: uint32
  Addrs :: "ShortID list"

record LockIDs =
  DepositTxID :: ID
  BondTxID :: ID

text \<open>An output is a plain transfer output or a \<open>locked.Out\<close> carrying lock IDs.\<close>

datatype Output =
    TransferOutput uint64 OutputOwners
  | LockedOut LockIDs uint64 OutputOwners

record UTXO =
  InputID :: ID
  AssetID :: ID
  Out :: Output

record utxoModification =
  utxoID :: ID
  utxo :: "UTXO option"

record Offer =
  offer_ID :: ID
  Flags :: uint64
  offer_Memo :: nat

text \<open>
  Modelled from the spec: the methods of \<open>deposit.Deposit\<close> are outside these sources;
  section 3 gives the fields and \<open>end_time = start + duration\<close>.
\<close>

record Deposit =
  DepositOfferID :: ID
  Start :: uint64
  Duration :: uint32
  Amount :: uint64
  UnlockedAmount :: uint64
  ClaimedRewardAmount :: uint64
  RewardOwner :: OutputOwners

definition EndTime :: "Deposit \<Rightarrow> Time" where
  "EndTime dep = uint (Start dep) + uint (Duration dep)"

definition zeroTime :: Time where
  "zeroTime = - 62135596800"

record depositDiff =
  Deposit :: Deposit
  added :: bool
  removed :: bool

record Alias =
  alias_ID :: ShortID
  alias_Memo :: nat
  Owners :: OutputOwners

record Claimable =
  Owner :: OutputOwners
  ValidatorReward :: uint64
  DepositReward :: uint64

datatype ShortLinkKey = ShortLinkKeyRegisterNode | ShortLinkKeyOther nat

record Staker =
  TxID :: ID
  SubnetID :: ID
  staker_NodeID :: NodeID
  Weight :: uint64
  Priority :: nat

record diffValidator =
  validatorModified :: bool
  validatorDeleted :: bool
  validator :: "Staker option"

subsection \<open>The parent state, as the diff sees it\<close>

text \<open>
  \<open>stateVersions.GetState\<close> yields a value of the interface the diff forwards to. It is a
  record of the methods the diff calls. A method that returns a value and an error is a
  sum, except the next-to-unlock methods: the diff goes on with the time they return
  beside \<open>ErrNotFound\<close>, so they return both. The set they are handed is a Go map,
  shared with the caller, and a callee only adds to it, as the diff's own methods do:
  beside their results these methods return the set with what they added.
\<close>

record State =
  State_GetTimestamp :: Time
  State_LockedUTXOs :: "ID set \<Rightarrow> ShortID set \<Rightarrow> LockState \<Rightarrow> error + UTXO list"
  State_GetAddressStates :: "ShortID \<Rightarrow> error + uint64"
  State_GetDepositOffer :: "ID \<Rightarrow> error + Offer option"
  State_GetAllDepositOffers :: "error + Offer list"
  State_GetDeposit :: "ID \<Rightarrow> error + Deposit"
  State_GetNextToUnlockDepositTime :: "ID set \<Rightarrow> (Time \<times> error option) \<times> ID set"
  State_GetNextToUnlockDepositIDsAndTime ::
    "ID set \<Rightarrow> (ID list \<times> Time \<times> error option) \<times> ID set"
  State_GetMultisigAlias :: "ShortID \<Rightarrow> error + Alias"
  State_GetShortIDLink :: "ShortID \<Rightarrow> ShortLinkKey \<Rightarrow> error + ShortID"
  State_GetClaimable :: "ID \<Rightarrow> error + Claimable"
  State_GetNotDistributedValidatorReward :: "error + uint64"

subsection \<open>The diff\<close>

text \<open>
  A Go map is an association list with one entry per key; writing a key replaces its
  entry (\<open>AList.update\<close>), and a \<open>range\<close> loop visits the entries in the order of the
  list, which stands for whatever order the runtime picks. A pointer that may be nil is
  an option. The deposits stored by \<open>AddDeposit\<close>, \<open>ModifyDeposit\<close> and
  \<open>RemoveDeposit\<close> are not nil: \<open>EndTime\<close> is read from every entry.
\<close>

record diff =
  parentID :: ID
  stateVersions :: "ID \<Rightarrow> State option"
  timestamp :: Time
  modifiedUTXOs :: "(ID \<times> utxoModification) list"
  modifiedAddressStates :: "(ShortID \<times> uint64) list"
  modifiedDepositOffers :: "(ID \<times> Offer option) list"
  modifiedDeposits :: "(ID \<times> depositDiff) list"
  modifiedMultisigOwners :: "(ShortID \<times> Alias option) list"
  modifiedShortLinks :: "((ShortID \<times> ShortLinkKey) \<times> ShortID option) list"
  modifiedClaimables :: "(ID \<times> Claimable option) list"
  modifiedNotDistributedValidatorReward :: "uint64 option"
  validatorDiffs :: "(ID \<times> (NodeID \<times> diffValidator) list) list"

definition NewCaminoDiff :: "ID \<Rightarrow> (ID \<Rightarrow> State option) \<Rightarrow> error + diff" where
  "NewCaminoDiff pid versions =
     (case versions pid of
        None \<Rightarrow> Inl (ErrMissingParentState pid)
      | Some parentState \<Rightarrow>
          Inr \<lparr> parentID = pid, stateVersions = versions,
                timestamp = State_GetTimestamp parentState,
                modifiedUTXOs = [], modifiedAddressStates = [],
                modifiedDepositOffers = [], modifiedDeposits = [],
                modifiedMultisigOwners = [], modifiedShortLinks = [],
                modifiedClaimables = [],
                modifiedNotDistributedValidatorReward = None,
                validatorDiffs = [] \<rparr>)"

text \<open>\<open>toShortLinkKey\<close> packs an address and a link key into one map key; the pair is the key.\<close>

definition toShortLinkKey :: "ShortID \<Rightarrow> ShortLinkKey \<Rightarrow> ShortID \<times> ShortLinkKey" where
  "toShortLinkKey i key = (i, key)"

definition fromShortLinkKey :: "ShortID \<times> ShortLinkKey \<Rightarrow> ShortID \<times> ShortLinkKey" where
  "fromShortLinkKey fullKey = fullKey"

subsection \<open>Setters\<close>

text \<open>
  \<open>SetDepositOffer\<close> and \<open>SetMultisigAlias\<close> read the ID of their argument before they
  write, so they take an offer and an alias, not a nil pointer.
\<close>

definition SetAddressStates :: "ShortID \<Rightarrow> uint64 \<Rightarrow> diff \<Rightarrow> diff" where
  "SetAddressStates address states d =
     d\<lparr>modifiedAddressStates := AList.update address states (modifiedAddressStates d)\<rparr>"

definition SetDepositOffer :: "Offer \<Rightarrow> diff \<Rightarrow> diff" where
  "SetDepositOffer offer d =
     d\<lparr>modifiedDepositOffers :=
          AList.update (offer_ID offer) (Some offer) (modifiedDepositOffers d)\<rparr>"

definition AddDeposit :: "ID \<Rightarrow> Deposit \<Rightarrow> diff \<Rightarrow> diff" where
  "AddDeposit depositTxID dep d =
     d\<lparr>modifiedDeposits :=
          AList.update depositTxID \<lparr>Deposit = dep, added = True, removed = False\<rparr>
            (modifiedDeposits d)\<rparr>"

definition ModifyDeposit :: "ID \<Rightarrow> Deposit \<Rightarrow> diff \<Rightarrow> diff" where
  "ModifyDeposit depositTxID dep d =
     d\<lparr>modifiedDeposits :=
          AList.update depositTxID \<lparr>Deposit = dep, added = False, removed = False\<rparr>
            (modifiedDeposits d)\<rparr>"

definition RemoveDeposit :: "ID \<Rightarrow> Deposit \<Rightarrow> diff \<Rightarrow> diff" where
  "RemoveDeposit depositTxID dep d =
     d\<lparr>modifiedDeposits :=
          AList.update depositTxID \<lparr>Deposit = dep, added = False, removed = True\<rparr>
            (modifiedDeposits d)\<rparr>"

definition SetMultisigAlias :: "Alias \<Rightarrow> diff \<Rightarrow> diff" where
  "SetMultisigAlias owner d =
     d\<lparr>modifiedMultisigOwners :=
          AList.update (alias_ID owner) (Some owner) (modifiedMultisigOwners d)\<rparr>"

definition SetShortIDLink :: "ShortID \<Rightarrow> ShortLinkKey \<Rightarrow> ShortID option \<Rightarrow> diff \<Rightarrow> diff" where
  "SetShortIDLink i key link d =
     d\<lparr>modifiedShortLinks :=
          AList.update (toShortLinkKey i key) link (modifiedShortLinks d)\<rparr>"

definition SetClaimable :: "ID \<Rightarrow> Claimable option \<Rightarrow> diff \<Rightarrow> diff" where
  "SetClaimable ownerID claimable d =
     d\<lparr>modifiedClaimables := AList.update ownerID claimable (modifiedClaimables d)\<rparr>"

definition SetNotDistributedValidatorReward :: "uint64 \<Rightarrow> diff \<Rightarrow> diff" where
  "SetNotDistributedValidatorReward reward d =
     d\<lparr>modifiedNotDistributedValidatorReward := Some reward\<rparr>"

subsection \<open>Getters\<close>

definition GetAddressStates :: "diff \<Rightarrow> ShortID \<Rightarrow> error + uint64" where
  "GetAddressStates d address =
     (case map_of (modifiedAddressStates d) address of
        Some states \<Rightarrow> Inr states
      | None \<Rightarrow>
          (case stateVersions d (parentID d) of
             None \<Rightarrow> Inl (ErrMissingParentState (parentID d))
           | Some parentState \<Rightarrow> State_GetAddressStates parentState address))"

definition GetDepositOffer :: "diff \<Rightarrow> ID \<Rightarrow> error + Offer option" where
  "GetDepositOffer d offerID =
     (case map_of (modifiedDepositOffers d) offerID of
        Some offer \<Rightarrow> Inr offer
      | None \<Rightarrow>
          (case stateVersions d (parentID d) of
             None \<Rightarrow> Inl (ErrMissingParentState (parentID d))
           | Some parentState \<Rightarrow> State_GetDepositOffer parentState offerID))"

definition GetAllDepositOffers :: "diff \<Rightarrow> error + Offer list" where
  "GetAllDepositOffers d =
     (case stateVersions d (parentID d) of
        None \<Rightarrow> Inl (ErrMissingParentState (parentID d))
      | Some parentState \<Rightarrow>
          (case State_GetAllDepositOffers parentState of
             Inl err \<Rightarrow> Inl err
           | Inr parentOffers \<Rightarrow>
               Inr (List.map_filter snd (modifiedDepositOffers d) @
                    filter (\<lambda>offer. map_of (modifiedDepositOffers d) (offer_ID offer) = None)
                      parentOffers)))"

definition GetDeposit :: "diff \<Rightarrow> ID \<Rightarrow> error + Deposit" where
  "GetDeposit d depositTxID =
     (case map_of (modifiedDeposits d) depositTxID of
        Some dd \<Rightarrow> (if removed dd then Inl ErrNotFound else Inr (Deposit dd))
      | None \<Rightarrow>
          (case stateVersions d (parentID d) of
             None \<Rightarrow> Inl (ErrMissingParentState (parentID d))
           | Some parentState \<Rightarrow> State_GetDeposit parentState depositTxID))"

definition GetMultisigAlias :: "diff \<Rightarrow> ShortID \<Rightarrow> error + Alias" where
  "GetMultisigAlias d alias =
     (case map_of (modifiedMultisigOwners d) alias of
        Some msigOwner \<Rightarrow>
          (case msigOwner of None \<Rightarrow> Inl ErrNotFound | Some owner \<Rightarrow> Inr owner)
      | None \<Rightarrow>
          (case stateVersions d (parentID d) of
             None \<Rightarrow> Inl (ErrMissingParentState (parentID d))
           | Some parentState \<Rightarrow> State_GetMultisigAlias parentState alias))"

definition GetShortIDLink :: "diff \<Rightarrow> ShortID \<Rightarrow> ShortLinkKey \<Rightarrow> error + ShortID" where
  "GetShortIDLink d i key =
     (case map_of (modifiedShortLinks d) (toShortLinkKey i key) of
        Some addr \<Rightarrow> (case addr of None \<Rightarrow> Inl ErrNotFound | Some a \<Rightarrow> Inr a)
      | None \<Rightarrow>
          (case stateVersions d (parentID d) of
             None \<Rightarrow> Inl (ErrMissingParentState (parentID d))
           | Some parentState \<Rightarrow> State_GetShortIDLink parentState i key))"

definition GetClaimable :: "diff \<Rightarrow> ID \<Rightarrow> error + Claimable" where
  "GetClaimable d ownerID =
     (case map_of (modifiedClaimables d) ownerID of
        Some claimable \<Rightarrow> (case claimable of None \<Rightarrow> Inl ErrNotFound | Some c \<Rightarrow> Inr c)
      | None \<Rightarrow>
          (case stateVersions d (parentID d) of
             None \<Rightarrow> Inl (ErrMissingParentState (parentID d))
           | Some parentState \<Rightarrow> State_GetClaimable parentState ownerID))"

definition GetNotDistributedValidatorReward :: "diff \<Rightarrow> error + uint64" where
  "GetNotDistributedValidatorReward d =
     (case modifiedNotDistributedValidatorReward d of
        Some reward \<Rightarrow> Inr reward
      | None \<Rightarrow>
          (case stateVersions d (parentID d) of
             None \<Rightarrow> Inl (ErrMissingParentState (parentID d))
           | Some parentState \<Rightarrow> State_GetNotDistributedValidatorReward parentState))"

subsection \<open>The service's offer query\<close>

text \<open>
  \<open>CaminoService.GetAllDepositOffers\<close> filters what the state returns. The flag constant
  \<open>deposit.OfferFlagLocked\<close> is outside these sources and is a parameter.
\<close>

definition CaminoService_GetAllDepositOffers ::
  "uint64 \<Rightarrow> (error + Offer list) \<Rightarrow> bool \<Rightarrow> error + Offer list" where
  "CaminoService_GetAllDepositOffers OfferFlagLocked stateOffers active =
     (case stateOffers of
        Inl err \<Rightarrow> Inl err
      | Inr depositOffers \<Rightarrow>
          Inr (if active
               then filter (\<lambda>offer. Flags offer AND OfferFlagLocked = 0) depositOffers
               else depositOffers))"


subsection \<open>Sequences of setter calls\<close>

text \<open>The calls a transaction's execution makes on a diff, one after the other.\<close>

datatype setter =
    CallSetAddressStates ShortID uint64
  | CallSetDepositOffer Offer
  | CallAddDeposit ID Deposit
  | CallModifyDeposit ID Deposit
  | CallRemoveDeposit ID Deposit
  | CallSetMultisigAlias Alias
  | CallSetShortIDLink ShortID ShortLinkKey "ShortID option"
  | CallSetClaimable ID "Claimable option"
  | CallSetNotDistributedValidatorReward uint64

fun call :: "setter \<Rightarrow> diff \<Rightarrow> diff" where
  "call (CallSetAddressStates address states) d = SetAddressStates address states d"
| "call (CallSetDepositOffer offer) d = SetDepositOffer offer d"
| "call (CallAddDeposit depositTxID dep) d = AddDeposit depositTxID dep d"
| "call (CallModifyDeposit depositTxID dep) d = ModifyDeposit depositTxID dep d"
| "call (CallRemoveDeposit depositTxID dep) d = RemoveDeposit depositTxID dep d"
| "call (CallSetMultisigAlias owner) d = SetMultisigAlias owner d"
| "call (CallSetShortIDLink i key link) d = SetShortIDLink i key link d"
| "call (CallSetClaimable ownerID claimable) d = SetClaimable ownerID claimable d"
| "call (CallSetNotDistributedValidatorReward reward) d =
     SetNotDistributedValidatorReward reward d"

fun calls :: "setter list \<Rightarrow> diff \<Rightarrow> diff" where
  "calls [] d = d"
| "calls (c # cs) d = calls cs (call c d)"

subsection \<open>Next deposit to unlock\<close>

text \<open>
  \<open>removedDepositIDs\<close> is a Go map: what the callee adds is in the caller's set
  afterwards, so both functions return the set as they leave it beside their results,
  and after the call to the parent the set holds what the parent added as well: the set
  the diff handed over, joined with the set the parent returns. The map
  is taken to be allocated; what \<open>Add\<close> does to a nil set is decided in \<open>utils/set\<close>,
  outside these sources. \<open>mockable.MaxTime\<close> is outside these sources as well and is the
  parameter \<open>MaxTime\<close>.

  The first loop adds the deposits the diff removed to the set.
\<close>

definition addRemoved :: "(ID \<times> depositDiff) list \<Rightarrow> ID set \<Rightarrow> ID set" where
  "addRemoved deposits removedDepositIDs =
     fold (\<lambda>(depositID, dd) s. if removed dd then insert depositID s else s)
       deposits removedDepositIDs"

text \<open>The second loop lowers the parent's time to the earliest end of an added deposit.\<close>

definition earliestAdded :: "(ID \<times> depositDiff) list \<Rightarrow> ID set \<Rightarrow> Time \<Rightarrow> Time" where
  "earliestAdded deposits removedDepositIDs nextUnlockTime =
     fold (\<lambda>(depositID, dd) t.
             if added dd \<and> EndTime (Deposit dd) < t \<and> depositID \<notin> removedDepositIDs
             then EndTime (Deposit dd) else t)
       deposits nextUnlockTime"

definition GetNextToUnlockDepositTime ::
  "Time \<Rightarrow> diff \<Rightarrow> ID set \<Rightarrow> (Time \<times> error option) \<times> ID set" where
  "GetNextToUnlockDepositTime MaxTime d removedDepositIDs =
     (case stateVersions d (parentID d) of
        None \<Rightarrow> ((zeroTime, Some (ErrMissingParentState (parentID d))), removedDepositIDs)
      | Some parentState \<Rightarrow>
          (case State_GetNextToUnlockDepositTime parentState
                  (addRemoved (modifiedDeposits d) removedDepositIDs) of
             ((parentTime, err), parentSet) \<Rightarrow>
               let removedDepositIDs' =
                     addRemoved (modifiedDeposits d) removedDepositIDs \<union> parentSet
               in if err \<noteq> None \<and> err \<noteq> Some ErrNotFound
                  then ((zeroTime, err), removedDepositIDs')
                  else
                    let nextUnlockTime =
                          earliestAdded (modifiedDeposits d) removedDepositIDs' parentTime
                    in if nextUnlockTime = MaxTime
                       then ((MaxTime, Some ErrNotFound), removedDepositIDs')
                       else ((nextUnlockTime, None), removedDepositIDs')))"

text \<open>The third loop collects the added deposits that end at the time found.\<close>

definition addedAt :: "(ID \<times> depositDiff) list \<Rightarrow> ID set \<Rightarrow> Time \<Rightarrow> ID list" where
  "addedAt deposits removedDepositIDs nextUnlockTime =
     map fst (filter (\<lambda>(depositID, dd).
                added dd \<and> EndTime (Deposit dd) = nextUnlockTime \<and>
                depositID \<notin> removedDepositIDs) deposits)"

definition GetNextToUnlockDepositIDsAndTime ::
  "Time \<Rightarrow> diff \<Rightarrow> ID set \<Rightarrow> (ID list \<times> Time \<times> error option) \<times> ID set" where
  "GetNextToUnlockDepositIDsAndTime MaxTime d removedDepositIDs =
     (case stateVersions d (parentID d) of
        None \<Rightarrow>
          (([], zeroTime, Some (ErrMissingParentState (parentID d))), removedDepositIDs)
      | Some parentState \<Rightarrow>
          (case State_GetNextToUnlockDepositIDsAndTime parentState
                  (addRemoved (modifiedDeposits d) removedDepositIDs) of
             ((parentNextDepositIDs, parentNextUnlockTime, err), parentSet) \<Rightarrow>
               let removedDepositIDs' =
                     addRemoved (modifiedDeposits d) removedDepositIDs \<union> parentSet
               in if err \<noteq> None \<and> err \<noteq> Some ErrNotFound
                  then (([], zeroTime, err), removedDepositIDs')
                  else
                    let nextUnlockTime =
                          earliestAdded (modifiedDeposits d) removedDepositIDs'
                            parentNextUnlockTime
                    in if nextUnlockTime = MaxTime
                       then (([], MaxTime, Some ErrNotFound), removedDepositIDs')
                       else
                         let nextDepositIDs =
                               (if \<not> parentNextUnlockTime > nextUnlockTime
                                then parentNextDepositIDs else []);
                             addedIDs =
                               addedAt (modifiedDeposits d) removedDepositIDs'
                                 nextUnlockTime;
                             needSort = (addedIDs \<noteq> [])
                         in ((if needSort then sort (nextDepositIDs @ addedIDs)
                              else nextDepositIDs,
                              nextUnlockTime, None), removedDepositIDs')))"

subsection \<open>Locked UTXOs\<close>

text \<open>
  \<open>locked.IDs.Match\<close> is outside these sources and is the parameter \<open>Match\<close>.

  Step 1 walks the parent's answer from its last element to its first. An element whose
  ID the diff modified is dropped when the modification is a deletion and replaced by the
  diff's UTXO otherwise; the modification's \<open>utxoID\<close> leaves the set \<open>remaining\<close>.
\<close>

fun removeOrUpdate ::
  "(ID \<times> utxoModification) list \<Rightarrow> UTXO list \<Rightarrow> ID set \<Rightarrow> UTXO list \<times> ID set" where
  "removeOrUpdate mods [] remaining = ([], remaining)"
| "removeOrUpdate mods (u # us) remaining =
     (case removeOrUpdate mods us remaining of
        (us', remaining') \<Rightarrow>
          (case map_of mods (InputID u) of
             None \<Rightarrow> (u # us', remaining')
           | Some m \<Rightarrow>
               (case utxo m of
                  None \<Rightarrow> (us', remaining' - {utxoID m})
                | Some u' \<Rightarrow> (u' # us', remaining' - {utxoID m}))))"

text \<open>
  Step 2 visits the IDs left in \<open>remaining\<close> and appends the diff's UTXO when it is a
  locked output whose lock IDs match. Every ID in \<open>remaining\<close> is a key of the map, so
  the lookup finds an entry.
\<close>

definition appendNew ::
  "(LockIDs \<Rightarrow> LockState \<Rightarrow> ID set \<Rightarrow> bool) \<Rightarrow> (ID \<times> utxoModification) list \<Rightarrow>
   ID set \<Rightarrow> ID set \<Rightarrow> LockState \<Rightarrow> UTXO list \<Rightarrow> UTXO list" where
  "appendNew Match mods remaining txIDs lockState retUtxos =
     fold (\<lambda>k ret.
             case map_of mods k of
               None \<Rightarrow> ret
             | Some m \<Rightarrow>
                 (case utxo m of
                    None \<Rightarrow> ret
                  | Some u \<Rightarrow>
                      (case Out u of
                         LockedOut lockIDs amt owners \<Rightarrow>
                           if Match lockIDs lockState txIDs then ret @ [u] else ret
                       | TransferOutput amt owners \<Rightarrow> ret)))
       (filter (\<lambda>k. k \<in> remaining) (map fst mods)) retUtxos"

definition LockedUTXOs ::
  "(LockIDs \<Rightarrow> LockState \<Rightarrow> ID set \<Rightarrow> bool) \<Rightarrow> diff \<Rightarrow>
   ID set \<Rightarrow> ShortID set \<Rightarrow> LockState \<Rightarrow> error + UTXO list" where
  "LockedUTXOs Match d txIDs addresses lockState =
     (case stateVersions d (parentID d) of
        None \<Rightarrow> Inl (ErrMissingParentState (parentID d))
      | Some parentState \<Rightarrow>
          (case State_LockedUTXOs parentState txIDs addresses lockState of
             Inl err \<Rightarrow> Inl err
           | Inr retUtxos \<Rightarrow>
               (case removeOrUpdate (modifiedUTXOs d) retUtxos
                       (set (map fst (modifiedUTXOs d))) of
                  (retUtxos', remaining) \<Rightarrow>
                    Inr (appendNew Match (modifiedUTXOs d) remaining txIDs lockState
                           retUtxos'))))"

subsection \<open>Applying the diff to the base state\<close>

text \<open>
  Modelled from the spec: the base \<open>State\<close> that \<open>ApplyCaminoState\<close> writes to is outside
  these sources. By sections 5 and 6 it is the store the setters write, one value per
  key, the last write winning; a nil link or claimable deletes the entry (section 3).
  \<open>SetDepositOffer\<close>, \<open>SetMultisigAlias\<close>, \<open>PutDeferredValidator\<close> and
  \<open>DeleteDeferredValidator\<close> are handed the value alone and file it under its own ID, as
  the diff's setters in these sources do; a nil pointer has no ID to read, and the call
  does not return (\<open>None\<close>).
\<close>

record BaseState =
  base_NotDistributedValidatorReward :: uint64
  base_AddressStates :: "ShortID \<rightharpoonup> uint64"
  base_DepositOffers :: "ID \<rightharpoonup> Offer"
  base_Deposits :: "ID \<rightharpoonup> Deposit"
  base_MultisigAliases :: "ShortID \<rightharpoonup> Alias"
  base_ShortLinks :: "ShortID \<times> ShortLinkKey \<rightharpoonup> ShortID"
  base_Claimables :: "ID \<rightharpoonup> Claimable"
  base_DeferredValidators :: "ID \<times> NodeID \<rightharpoonup> Staker"

definition base_SetNotDistributedValidatorReward ::
  "uint64 \<Rightarrow> BaseState \<Rightarrow> BaseState option" where
  "base_SetNotDistributedValidatorReward reward b =
     Some (b\<lparr>base_NotDistributedValidatorReward := reward\<rparr>)"

definition base_SetAddressStates :: "ShortID \<Rightarrow> uint64 \<Rightarrow> BaseState \<Rightarrow> BaseState option" where
  "base_SetAddressStates address states b =
     Some (b\<lparr>base_AddressStates := (base_AddressStates b)(address \<mapsto> states)\<rparr>)"

definition base_SetDepositOffer :: "Offer option \<Rightarrow> BaseState \<Rightarrow> BaseState option" where
  "base_SetDepositOffer offer b =
     (case offer of
        None \<Rightarrow> None
      | Some x \<Rightarrow> Some (b\<lparr>base_DepositOffers := (base_DepositOffers b)(offer_ID x \<mapsto> x)\<rparr>))"

definition base_AddDeposit :: "ID \<Rightarrow> Deposit \<Rightarrow> BaseState \<Rightarrow> BaseState option" where
  "base_AddDeposit depositTxID dep b =
     Some (b\<lparr>base_Deposits := (base_Deposits b)(depositTxID \<mapsto> dep)\<rparr>)"

definition base_ModifyDeposit :: "ID \<Rightarrow> Deposit \<Rightarrow> BaseState \<Rightarrow> BaseState option" where
  "base_ModifyDeposit depositTxID dep b =
     Some (b\<lparr>base_Deposits := (base_Deposits b)(depositTxID \<mapsto> dep)\<rparr>)"

definition base_RemoveDeposit :: "ID \<Rightarrow> Deposit \<Rightarrow> BaseState \<Rightarrow> BaseState option" where
  "base_RemoveDeposit depositTxID dep b =
     Some (b\<lparr>base_Deposits := (base_Deposits b)(depositTxID := None)\<rparr>)"

definition base_SetMultisigAlias :: "Alias option \<Rightarrow> BaseState \<Rightarrow> BaseState option" where
  "base_SetMultisigAlias owner b =
     (case owner of
        None \<Rightarrow> None
      | Some x \<Rightarrow>
          Some (b\<lparr>base_MultisigAliases := (base_MultisigAliases b)(alias_ID x \<mapsto> x)\<rparr>))"

definition base_SetShortIDLink ::
  "ShortID \<Rightarrow> ShortLinkKey \<Rightarrow> ShortID option \<Rightarrow> BaseState \<Rightarrow> BaseState option" where
  "base_SetShortIDLink i key link b =
     Some (b\<lparr>base_ShortLinks := (base_ShortLinks b)((i, key) := link)\<rparr>)"

definition base_SetClaimable :: "ID \<Rightarrow> Claimable option \<Rightarrow> BaseState \<Rightarrow> BaseState option" where
  "base_SetClaimable ownerID claimable b =
     Some (b\<lparr>base_Claimables := (base_Claimables b)(ownerID := claimable)\<rparr>)"

definition base_PutDeferredValidator :: "Staker option \<Rightarrow> BaseState \<Rightarrow> BaseState option" where
  "base_PutDeferredValidator staker b =
     (case staker of
        None \<Rightarrow> None
      | Some s \<Rightarrow>
          Some (b\<lparr>base_DeferredValidators :=
                    (base_DeferredValidators b)((SubnetID s, staker_NodeID s) \<mapsto> s)\<rparr>))"

definition base_DeleteDeferredValidator :: "Staker option \<Rightarrow> BaseState \<Rightarrow> BaseState option" where
  "base_DeleteDeferredValidator staker b =
     (case staker of
        None \<Rightarrow> None
      | Some s \<Rightarrow>
          Some (b\<lparr>base_DeferredValidators :=
                    (base_DeferredValidators b)((SubnetID s, staker_NodeID s) := None)\<rparr>))"

text \<open>A \<open>range\<close> loop whose body calls a setter of the base state.\<close>

fun forEach :: "('a \<Rightarrow> 's \<Rightarrow> 's option) \<Rightarrow> 'a list \<Rightarrow> 's \<Rightarrow> 's option" where
  "forEach body [] b = Some b"
| "forEach body (x # xs) b =
     (case body x b of None \<Rightarrow> None | Some b' \<Rightarrow> forEach body xs b')"

definition ApplyCaminoState :: "diff \<Rightarrow> BaseState \<Rightarrow> BaseState option" where
  "ApplyCaminoState d baseState = do {
     b1 \<leftarrow> (case modifiedNotDistributedValidatorReward d of
              None \<Rightarrow> Some baseState
            | Some reward \<Rightarrow> base_SetNotDistributedValidatorReward reward baseState);
     b2 \<leftarrow> forEach (\<lambda>(k, v). base_SetAddressStates k v) (modifiedAddressStates d) b1;
     b3 \<leftarrow> forEach (\<lambda>(k, depositOffer). base_SetDepositOffer depositOffer)
             (modifiedDepositOffers d) b2;
     b4 \<leftarrow> forEach (\<lambda>(depositTxID, dd).
                      if added dd then base_AddDeposit depositTxID (Deposit dd)
                      else if removed dd then base_RemoveDeposit depositTxID (Deposit dd)
                      else base_ModifyDeposit depositTxID (Deposit dd))
             (modifiedDeposits d) b3;
     b5 \<leftarrow> forEach (\<lambda>(k, v). base_SetMultisigAlias v) (modifiedMultisigOwners d) b4;
     b6 \<leftarrow> forEach (\<lambda>(fullKey, link).
                      case fromShortLinkKey fullKey of
                        (i, key) \<Rightarrow> base_SetShortIDLink i key link)
             (modifiedShortLinks d) b5;
     b7 \<leftarrow> forEach (\<lambda>(ownerID, claimable). base_SetClaimable ownerID claimable)
             (modifiedClaimables d) b6;
     forEach (\<lambda>(subnetID, validatorDiffs).
                forEach (\<lambda>(nodeID, validatorDiff).
                           if validatorModified validatorDiff
                           then (if validatorDeleted validatorDiff
                                 then base_DeleteDeferredValidator (validator validatorDiff)
                                 else base_PutDeferredValidator (validator validatorDiff))
                           else Some)
                  validatorDiffs)
       (validatorDiffs d) b7 }"

section \<open>The transaction builder\<close>

text \<open>
  A private key is numbered. A credential is the list of keys that signed it. A Go
  function that returns a transaction and an error returns a pair here: \<open>NewClaimTx\<close>
  and \<open>NewRewardsImportTx\<close> end with \<open>return tx, tx.SyntacticVerify(b.ctx)\<close>, which
  returns both when the verification fails.
\<close>

type_synonym PrivateKey = nat
type_synonym bytes = "8 word list"

record CaminoConfig =
  VerifyNodeSignature :: bool
  LockModeBondDeposit :: bool

record TransferableIn =
  in_Amount :: uint64
  SigIndices :: "uint32 list"

text \<open>What \<open>Keychain.Spend\<close> returns is an interface value that may or may not be a
  \<open>TransferableIn\<close>.\<close>

datatype InputIntf = IsTransferableIn TransferableIn | NotTransferableIn

record TransferableInput =
  in_UTXOID :: ID
  in_Asset :: ID
  In :: TransferableIn

record BaseTx =
  NetworkID :: uint32
  BlockchainID :: ID
  Ins :: "TransferableInput list"
  Outs :: "Output list"

datatype FxOwner = SECPOwner OutputOwners | OtherOwner

datatype UnsignedTx =
    ClaimTx BaseTx "ID list" "ID list" "uint64 list" "OutputOwners option"
  | RewardsImportTx BaseTx
  | DepositTx BaseTx ID uint32 FxOwner
  | OtherTx

record Tx =
  Unsigned :: UnsignedTx
  Creds :: "PrivateKey list list"

datatype Status = Committed | Aborted | Processing | Dropped

record TimedUTXO =
  timed_UTXO :: UTXO
  Timestamp :: uint64

text \<open>
  The builder's collaborators, all outside these sources: the chain state, the
  configuration, the clock, the shared memory, the spender's \<open>Lock\<close>, the keychain's
  \<open>Match\<close>, \<open>Add\<close> and \<open>Spend\<close>, the codec's \<open>Unmarshal\<close>, the constant
  \<open>atomic.SharedMemorySyncBound\<close>, and the two steps of signing: the error
  \<open>txs.NewSigned\<close> may return and the result of \<open>SyntacticVerify\<close>.
\<close>

record builder =
  state_CaminoConfig :: "error + CaminoConfig"
  state_GetTx :: "ID \<Rightarrow> error + Tx \<times> Status"
  state_GetClaimable :: "ID \<Rightarrow> error + Claimable"
  cfg_TxFee :: uint64
  ctx_NetworkID :: uint32
  ctx_ChainID :: ID
  clk_Unix :: uint64
  SharedMemory_Indexed :: "error + bytes list"
  SharedMemorySyncBound :: uint64
  Lock :: "PrivateKey list \<Rightarrow> uint64 \<Rightarrow> uint64 \<Rightarrow> LockState \<Rightarrow> OutputOwners option \<Rightarrow>
           OutputOwners option \<Rightarrow> uint64 \<Rightarrow>
           error + TransferableInput list \<times> Output list \<times> PrivateKey list list"
  kc_Match :: "PrivateKey list \<Rightarrow> OutputOwners \<Rightarrow> uint64 \<Rightarrow>
               uint32 list \<times> PrivateKey list \<times> bool"
  kc_Add :: "PrivateKey \<Rightarrow> PrivateKey list \<Rightarrow> PrivateKey list"
  treasury_Spend :: "Output \<Rightarrow> uint64 \<Rightarrow> error + InputIntf"
  Codec_Unmarshal :: "bytes \<Rightarrow> TimedUTXO option"
  NewSigned_error :: "UnsignedTx \<Rightarrow> PrivateKey list list \<Rightarrow> error option"
  SyntacticVerify :: "Tx \<Rightarrow> error option"

text \<open>
  Modelled from the spec: \<open>txs.NewSigned\<close> is outside these sources. By sections 4.4
  and 6 the signed transaction carries one credential per entry of \<open>signers\<close>, in their
  order.
\<close>

definition NewSigned :: "builder \<Rightarrow> UnsignedTx \<Rightarrow> PrivateKey list list \<Rightarrow> error + Tx" where
  "NewSigned b utx signers =
     (case NewSigned_error b utx signers of
        Some err \<Rightarrow> Inl err
      | None \<Rightarrow> Inr \<lparr>Unsigned = utx, Creds = signers\<rparr>)"

definition getDepositRewardsOwner :: "builder \<Rightarrow> ID \<Rightarrow> error + OutputOwners" where
  "getDepositRewardsOwner b depositTxID =
     (case state_GetTx b depositTxID of
        Inl err \<Rightarrow> Inl err
      | Inr (signedDepositTx, txStatus) \<Rightarrow>
          if txStatus \<noteq> Committed then Inl ErrTxIsNotCommitted
          else (case Unsigned signedDepositTx of
                  DepositTx baseTx offerID duration rewardsOwner \<Rightarrow>
                    (case rewardsOwner of
                       SECPOwner depositRewardsOwner \<Rightarrow> Inr depositRewardsOwner
                     | OtherOwner \<Rightarrow> Inl ErrNotSECPOwner)
                | _ \<Rightarrow> Inl ErrWrongTxType))"

text \<open>
  The two loops of \<open>NewClaimTx\<close> add the keys matched for each owner to the keychain
  \<open>claimableSignersKC\<close>, and leave the function at the first error.
\<close>

fun depositSigners ::
  "builder \<Rightarrow> PrivateKey list \<Rightarrow> ID list \<Rightarrow> PrivateKey list \<Rightarrow> error + PrivateKey list" where
  "depositSigners b kc [] claimableSignersKC = Inr claimableSignersKC"
| "depositSigners b kc (depositTxID # rest) claimableSignersKC =
     (case getDepositRewardsOwner b depositTxID of
        Inl err \<Rightarrow> Inl err
      | Inr depositRewardsOwner \<Rightarrow>
          (case kc_Match b kc depositRewardsOwner (clk_Unix b) of
             (indices, signers, able) \<Rightarrow>
               if \<not> able then Inl ErrKeyMissing
               else depositSigners b kc rest (fold (kc_Add b) signers claimableSignersKC)))"

fun claimableSigners ::
  "builder \<Rightarrow> PrivateKey list \<Rightarrow> ID list \<Rightarrow> PrivateKey list \<Rightarrow> error + PrivateKey list" where
  "claimableSigners b kc [] claimableSignersKC = Inr claimableSignersKC"
| "claimableSigners b kc (ownerID # rest) claimableSignersKC =
     (case state_GetClaimable b ownerID of
        Inl err \<Rightarrow> Inl (ErrWrapped ''couldn't get claimable for ownerID'' err)
      | Inr claimable \<Rightarrow>
          (case kc_Match b kc (Owner claimable) (clk_Unix b) of
             (indices, signers, able) \<Rightarrow>
               if \<not> able then Inl ErrKeyMissing
               else claimableSigners b kc rest (fold (kc_Add b) signers claimableSignersKC)))"

definition NewClaimTx ::
  "builder \<Rightarrow> ID list \<Rightarrow> ID list \<Rightarrow> uint64 list \<Rightarrow> OutputOwners option \<Rightarrow>
   PrivateKey list \<Rightarrow> OutputOwners option \<Rightarrow> Tx option \<times> error option" where
  "NewClaimTx b depositTxIDs claimableOwnerIDs amountToClaim claimTo keys change =
     (case state_CaminoConfig b of
        Inl err \<Rightarrow> (None, Some err)
      | Inr caminoGenesis \<Rightarrow>
          if \<not> LockModeBondDeposit caminoGenesis then (None, Some ErrWrongLockMode)
          else
            (case Lock b keys 0 (cfg_TxFee b) StateUnlocked None change 0 of
               Inl err \<Rightarrow>
                 (None, Some (ErrWrapped ''couldn't generate tx inputs/outputs'' err))
             | Inr (ins, outs, signers) \<Rightarrow>
                 (case depositSigners b keys depositTxIDs [] of
                    Inl err \<Rightarrow> (None, Some err)
                  | Inr kc1 \<Rightarrow>
                      (case claimableSigners b keys claimableOwnerIDs kc1 of
                         Inl err \<Rightarrow> (None, Some err)
                       | Inr claimableSignersKC \<Rightarrow>
                           (case NewSigned b
                                   (ClaimTx \<lparr>NetworkID = ctx_NetworkID b,
                                             BlockchainID = ctx_ChainID b,
                                             Ins = ins, Outs = outs\<rparr>
                                      depositTxIDs claimableOwnerIDs amountToClaim claimTo)
                                   (signers @ [claimableSignersKC]) of
                              Inl err \<Rightarrow> (None, Some err)
                            | Inr tx \<Rightarrow> (Some tx, SyntacticVerify b tx))))))"

text \<open>
  \<open>NewRewardsImportTx\<close>. The first loop keeps the UTXOs that decode as timed UTXOs and
  are old enough; the subtraction is on \<open>uint64\<close>.
\<close>

definition importableUTXOs :: "builder \<Rightarrow> bytes list \<Rightarrow> UTXO list" where
  "importableUTXOs b allUTXOsBytes =
     List.map_filter
       (\<lambda>utxoBytes.
          case Codec_Unmarshal b utxoBytes of
            None \<Rightarrow> None
          | Some u \<Rightarrow>
              if Timestamp u \<le> clk_Unix b - SharedMemorySyncBound b
              then Some (timed_UTXO u) else None)
       allUTXOsBytes"

text \<open>
  The second loop builds the inputs. It leaves the function when \<open>Spend\<close> fails, and
  also when the value spent is not a \<open>TransferableIn\<close>: there it returns the error of
  \<open>Spend\<close>, which is nil. The result is \<open>Inl\<close> of what the function then returns as its
  error.
\<close>

fun importInputs ::
  "builder \<Rightarrow> UTXO list \<Rightarrow> error option + TransferableInput list" where
  "importInputs b [] = Inr []"
| "importInputs b (u # us) =
     (case treasury_Spend b (Out u) (clk_Unix b) of
        Inl err \<Rightarrow> Inl (Some err)
      | Inr inputIntf \<Rightarrow>
          (case inputIntf of
             NotTransferableIn \<Rightarrow> Inl None
           | IsTransferableIn input \<Rightarrow>
               (case importInputs b us of
                  Inl e \<Rightarrow> Inl e
                | Inr ins \<Rightarrow>
                    Inr (\<lparr>in_UTXOID = InputID u, in_Asset = AssetID u, In = input\<rparr> # ins))))"

text \<open>
  Modelled from the spec: \<open>avax.SortTransferableInputs\<close> is outside these sources; by
  section 4.2 inputs are ordered by the ID of the UTXO they spend.
\<close>

definition SortTransferableInputs :: "TransferableInput list \<Rightarrow> TransferableInput list" where
  "SortTransferableInputs ins = sort_key in_UTXOID ins"

definition NewRewardsImportTx :: "builder \<Rightarrow> Tx option \<times> error option" where
  "NewRewardsImportTx b =
     (case state_CaminoConfig b of
        Inl err \<Rightarrow> (None, Some err)
      | Inr caminoGenesis \<Rightarrow>
          if \<not> LockModeBondDeposit caminoGenesis then (None, Some ErrWrongLockMode)
          else
            (case SharedMemory_Indexed b of
               Inl err \<Rightarrow> (None, Some (ErrWrapped ''error fetching atomic UTXOs'' err))
             | Inr allUTXOsBytes \<Rightarrow>
                 let utxos = importableUTXOs b allUTXOsBytes
                 in if length utxos = 0 then (None, Some ErrNoUTXOsForImport)
                    else
                      (case importInputs b utxos of
                         Inl e \<Rightarrow> (None, e)
                       | Inr ins \<Rightarrow>
                           (case NewSigned b
                                   (RewardsImportTx
                                      \<lparr>NetworkID = ctx_NetworkID b,
                                       BlockchainID = ctx_ChainID b,
                                       Ins = SortTransferableInputs ins, Outs = []\<rparr>) [] of
                              Inl err \<Rightarrow> (None, Some err)
                            | Inr tx \<Rightarrow> (Some tx, SyntacticVerify b tx)))))"

section \<open>Notions the claims are stated with\<close>

subsection \<open>What a getter owes after a sequence of setter calls\<close>

text \<open>
  For a getter and the key it is asked about, a setter call either leaves the key alone
  (\<open>None\<close>) or decides the getter's answer: the value it stored, or \<open>ErrNotFound\<close>
  when it stored a tombstone (a nil link or claimable, a removed deposit).
\<close>

definition ptrAnswer :: "'a option \<Rightarrow> error + 'a" where
  "ptrAnswer p = (case p of None \<Rightarrow> Inl ErrNotFound | Some v \<Rightarrow> Inr v)"

fun written_AddressStates :: "ShortID \<Rightarrow> setter \<Rightarrow> (error + uint64) option" where
  "written_AddressStates k (CallSetAddressStates address states) =
     (if address = k then Some (Inr states) else None)"
| "written_AddressStates k _ = None"

fun written_DepositOffer :: "ID \<Rightarrow> setter \<Rightarrow> (error + Offer option) option" where
  "written_DepositOffer k (CallSetDepositOffer offer) =
     (if offer_ID offer = k then Some (Inr (Some offer)) else None)"
| "written_DepositOffer k _ = None"

fun written_Deposit :: "ID \<Rightarrow> setter \<Rightarrow> (error + Deposit) option" where
  "written_Deposit k (CallAddDeposit depositTxID dep) =
     (if depositTxID = k then Some (Inr dep) else None)"
| "written_Deposit k (CallModifyDeposit depositTxID dep) =
     (if depositTxID = k then Some (Inr dep) else None)"
| "written_Deposit k (CallRemoveDeposit depositTxID dep) =
     (if depositTxID = k then Some (Inl ErrNotFound) else None)"
| "written_Deposit k _ = None"

fun written_MultisigAlias :: "ShortID \<Rightarrow> setter \<Rightarrow> (error + Alias) option" where
  "written_MultisigAlias k (CallSetMultisigAlias owner) =
     (if alias_ID owner = k then Some (Inr owner) else None)"
| "written_MultisigAlias k _ = None"

fun written_ShortIDLink ::
  "ShortID \<Rightarrow> ShortLinkKey \<Rightarrow> setter \<Rightarrow> (error + ShortID) option" where
  "written_ShortIDLink k key (CallSetShortIDLink i key' link) =
     (if i = k \<and> key' = key then Some (ptrAnswer link) else None)"
| "written_ShortIDLink k key _ = None"

fun written_Claimable :: "ID \<Rightarrow> setter \<Rightarrow> (error + Claimable) option" where
  "written_Claimable k (CallSetClaimable ownerID claimable) =
     (if ownerID = k then Some (ptrAnswer claimable) else None)"
| "written_Claimable k _ = None"

fun written_NotDistributedValidatorReward :: "setter \<Rightarrow> (error + uint64) option" where
  "written_NotDistributedValidatorReward (CallSetNotDistributedValidatorReward reward) =
     Some (Inr reward)"
| "written_NotDistributedValidatorReward _ = None"

text \<open>The last call of the sequence that decides the answer, if any does.\<close>

fun last_written :: "(setter \<Rightarrow> 'r option) \<Rightarrow> setter list \<Rightarrow> 'r option" where
  "last_written w [] = None"
| "last_written w (c # cs) =
     (case last_written w cs of Some r \<Rightarrow> Some r | None \<Rightarrow> w c)"

section \<open>Example states\<close>

definition noOwners :: OutputOwners where
  "noOwners = \<lparr>Locktime = 0, Threshold = 0, Addrs = []\<rparr>"

text \<open>A state that holds nothing, and answers the next-to-unlock queries accordingly.\<close>

definition emptyState :: "Time \<Rightarrow> State" where
  "emptyState MaxTime =
     \<lparr> State_GetTimestamp = 0,
       State_LockedUTXOs = (\<lambda>txIDs addresses lockState. Inr []),
       State_GetAddressStates = (\<lambda>address. Inr 0),
       State_GetDepositOffer = (\<lambda>offerID. Inl ErrNotFound),
       State_GetAllDepositOffers = Inr [],
       State_GetDeposit = (\<lambda>depositTxID. Inl ErrNotFound),
       State_GetNextToUnlockDepositTime = (\<lambda>s. ((MaxTime, Some ErrNotFound), s)),
       State_GetNextToUnlockDepositIDsAndTime = (\<lambda>s. (([], MaxTime, Some ErrNotFound), s)),
       State_GetMultisigAlias = (\<lambda>alias. Inl ErrNotFound),
       State_GetShortIDLink = (\<lambda>i key. Inl ErrNotFound),
       State_GetClaimable = (\<lambda>ownerID. Inl ErrNotFound),
       State_GetNotDistributedValidatorReward = Inr 0 \<rparr>"

text \<open>Scenario S5: the parent holds a claimable with validator reward 10 for owner 1.\<close>

definition claimable10 :: Claimable where
  "claimable10 = \<lparr>Owner = noOwners, ValidatorReward = 10, DepositReward = 0\<rparr>"

definition claimable25 :: Claimable where
  "claimable25 = \<lparr>Owner = noOwners, ValidatorReward = 25, DepositReward = 0\<rparr>"

definition stateS5 :: State where
  "stateS5 = (emptyState 0)
     \<lparr>State_GetClaimable := (\<lambda>ownerID. if ownerID = 1 then Inr claimable10
                                        else Inl ErrNotFound)\<rparr>"

definition versionsS5 :: "ID \<Rightarrow> State option" where
  "versionsS5 = (\<lambda>i. if i = 0 then Some stateS5 else None)"

definition emptyDiff :: "ID \<Rightarrow> (ID \<Rightarrow> State option) \<Rightarrow> diff" where
  "emptyDiff pid versions =
     \<lparr> parentID = pid, stateVersions = versions, timestamp = 0,
       modifiedUTXOs = [], modifiedAddressStates = [],
       modifiedDepositOffers = [], modifiedDeposits = [],
       modifiedMultisigOwners = [], modifiedShortLinks = [],
       modifiedClaimables = [],
       modifiedNotDistributedValidatorReward = None,
       validatorDiffs = [] \<rparr>"

definition deposit0 :: Deposit where
  "deposit0 = \<lparr>DepositOfferID = 0, Start = 0, Duration = 0, Amount = 0,
                UnlockedAmount = 0, ClaimedRewardAmount = 0, RewardOwner = noOwners\<rparr>"

text \<open>A diff that holds a tombstone of each kind, under key 5.\<close>

definition tombstoneDiff :: diff where
  "tombstoneDiff = (emptyDiff 0 versionsS5)
     \<lparr> modifiedDeposits := [(5, \<lparr>Deposit = deposit0, added = False, removed = True\<rparr>)],
       modifiedMultisigOwners := [(5, None)],
       modifiedShortLinks := [((5, ShortLinkKeyRegisterNode), None)],
       modifiedClaimables := [(5, None)] \<rparr>"

definition lockedOffer :: Offer where
  "lockedOffer = \<lparr>offer_ID = 3, Flags = 1, offer_Memo = 0\<rparr>"

definition openOffer :: Offer where
  "openOffer = \<lparr>offer_ID = 4, Flags = 0, offer_Memo = 0\<rparr>"

text \<open>A state that lists a locked and an open offer, and a diff over it.\<close>

definition stateOffers :: State where
  "stateOffers = (emptyState 0)
     \<lparr>State_GetDepositOffer :=
        (\<lambda>offerID. if offerID = 3 then Inr (Some lockedOffer)
                    else if offerID = 4 then Inr (Some openOffer) else Inl ErrNotFound),
      State_GetAllDepositOffers := Inr [lockedOffer, openOffer]\<rparr>"

definition diffOffers :: diff where
  "diffOffers = emptyDiff 0 (\<lambda>i. if i = 0 then Some stateOffers else None)"

subsection \<open>The deposits a diff stands for\<close>

text \<open>
  A state's deposits are listed as pairs of deposit ID and end time. The claims speak of
  the effective deposits of a diff: the parent's deposits and the deposits the diff
  added, without those the diff removed. They are the deposits \<open>GetDeposit\<close> reads through
  the diff: the parent's deposits that have no entry in the diff, and the deposits of the
  diff's entries that are not marked removed, whether the entry is marked added or not.
\<close>

definition removedIDs :: "diff \<Rightarrow> ID set" where
  "removedIDs d = set (map fst (filter (\<lambda>(k, dd). removed dd) (modifiedDeposits d)))"

definition effectiveDeposits :: "diff \<Rightarrow> (ID \<times> Time) list \<Rightarrow> (ID \<times> Time) list" where
  "effectiveDeposits d parentDeposits =
     filter (\<lambda>(k, t). k \<notin> fst ` set (modifiedDeposits d)) parentDeposits @
     map (\<lambda>(k, dd). (k, EndTime (Deposit dd)))
       (filter (\<lambda>(k, dd). \<not> removed dd) (modifiedDeposits d))"

text \<open>
  The loops of the query read the marks of the entries. The entries marked added and not
  excluded, and the deposits the loops take into account: the parent's and those of the
  entries marked added, without those of the entries marked removed.
\<close>

definition addedCandidates :: "(ID \<times> depositDiff) list \<Rightarrow> ID set \<Rightarrow> (ID \<times> Time) list" where
  "addedCandidates deposits excluded =
     map (\<lambda>(k, dd). (k, EndTime (Deposit dd)))
       (filter (\<lambda>(k, dd). added dd \<and> k \<notin> excluded) deposits)"

definition markedDeposits :: "diff \<Rightarrow> (ID \<times> Time) list \<Rightarrow> (ID \<times> Time) list" where
  "markedDeposits d parentDeposits =
     filter (\<lambda>(k, t). k \<notin> removedIDs d)
       (parentDeposits @ addedCandidates (modifiedDeposits d) {})"

definition candidates :: "(ID \<times> Time) list \<Rightarrow> ID set \<Rightarrow> (ID \<times> Time) list" where
  "candidates deposits excluded = filter (\<lambda>(k, t). k \<notin> excluded) deposits"

text \<open>
  The earliest end time among candidates, and the candidates that end then, in ascending
  order of ID.
\<close>

definition earliestEnd :: "(ID \<times> Time) list \<Rightarrow> Time" where
  "earliestEnd cands = Min (set (map snd cands))"

definition endingAt :: "(ID \<times> Time) list \<Rightarrow> Time \<Rightarrow> ID list" where
  "endingAt cands t = sort (map fst (filter (\<lambda>(k, t'). t' = t) cands))"

text \<open>
  The answer of the next-to-unlock query over a list of deposits, as the diff in these
  sources gives it: \<open>ErrNotFound\<close> beside \<open>MaxTime\<close> when no candidate ends before
  \<open>MaxTime\<close>, otherwise the candidates that end first and their end time.
\<close>

definition nextToUnlock ::
  "Time \<Rightarrow> (ID \<times> Time) list \<Rightarrow> ID set \<Rightarrow> ID list \<times> Time \<times> error option" where
  "nextToUnlock MaxTime deposits excluded =
     (let cands = candidates deposits excluded
      in if cands = [] \<or> MaxTime \<le> earliestEnd cands
         then ([], MaxTime, Some ErrNotFound)
         else (endingAt cands (earliestEnd cands), earliestEnd cands, None))"

text \<open>
  A parent answers for the deposits \<open>parentDeposits\<close>, adding the IDs \<open>parentRemoved\<close>
  (those its own chain of diffs removed) to the set it is handed.
\<close>

definition answersFor :: "Time \<Rightarrow> State \<Rightarrow> (ID \<times> Time) list \<Rightarrow> ID set \<Rightarrow> bool" where
  "answersFor MaxTime P parentDeposits parentRemoved \<longleftrightarrow>
     (\<forall>E. State_GetNextToUnlockDepositIDsAndTime P E =
            (nextToUnlock MaxTime parentDeposits E, E \<union> parentRemoved))"

text \<open>
  The deposits a diff added have IDs that are new: no deposit of the parent and no
  deposit removed further down has them.
\<close>

definition addedAreNew :: "diff \<Rightarrow> (ID \<times> Time) list \<Rightarrow> ID set \<Rightarrow> bool" where
  "addedAreNew d parentDeposits parentRemoved \<longleftrightarrow>
     (\<forall>(k, dd) \<in> set (modifiedDeposits d).
        added dd \<longrightarrow> k \<notin> fst ` set parentDeposits \<and> k \<notin> parentRemoved)"

text \<open>
  The entries of the diff that are marked neither added nor removed, those
  \<open>ModifyDeposit\<close> wrote, are of deposits the parent holds, with the end time the parent
  has for them: \<open>ModifyDeposit\<close> was not called for a deposit the same diff added.
\<close>

definition modifiedAreHeld :: "diff \<Rightarrow> (ID \<times> Time) list \<Rightarrow> bool" where
  "modifiedAreHeld d parentDeposits \<longleftrightarrow>
     (\<forall>(k, dd) \<in> set (modifiedDeposits d).
        \<not> added dd \<and> \<not> removed dd \<longrightarrow> (k, EndTime (Deposit dd)) \<in> set parentDeposits)"

text \<open>
  A state that holds the listed deposits and nothing else; a deposit starts at its end
  time and has no duration.
\<close>

definition depositFrom :: "uint64 \<Rightarrow> Deposit" where
  "depositFrom s = deposit0\<lparr>Start := s\<rparr>"

definition stateOfDeposits :: "Time \<Rightarrow> (ID \<times> Time) list \<Rightarrow> State" where
  "stateOfDeposits MaxTime deposits = (emptyState MaxTime)
     \<lparr>State_GetDeposit :=
        (\<lambda>depositTxID. case map_of deposits depositTxID of
                          None \<Rightarrow> Inl ErrNotFound
                        | Some t \<Rightarrow> Inr (depositFrom (word_of_int t))),
      State_GetNextToUnlockDepositTime :=
        (\<lambda>E. (snd (nextToUnlock MaxTime deposits E), E)),
      State_GetNextToUnlockDepositIDsAndTime :=
        (\<lambda>E. (nextToUnlock MaxTime deposits E, E))\<rparr>"

text \<open>The diff as a parent of a further diff.\<close>

definition stateOfDiff :: "Time \<Rightarrow> diff \<Rightarrow> State" where
  "stateOfDiff MaxTime d =
     \<lparr> State_GetTimestamp = timestamp d,
       State_LockedUTXOs = (\<lambda>txIDs addresses lockState. Inr []),
       State_GetAddressStates = GetAddressStates d,
       State_GetDepositOffer = GetDepositOffer d,
       State_GetAllDepositOffers = GetAllDepositOffers d,
       State_GetDeposit = GetDeposit d,
       State_GetNextToUnlockDepositTime = GetNextToUnlockDepositTime MaxTime d,
       State_GetNextToUnlockDepositIDsAndTime = GetNextToUnlockDepositIDsAndTime MaxTime d,
       State_GetMultisigAlias = GetMultisigAlias d,
       State_GetShortIDLink = GetShortIDLink d,
       State_GetClaimable = GetClaimable d,
       State_GetNotDistributedValidatorReward = GetNotDistributedValidatorReward d \<rparr>"

text \<open>
  Scenario S6, with \<open>MaxTime\<close> at its value in the library, \<open>time.Unix(1<<63-62135596801, 0)\<close>:
  the parent holds deposit 1 ending at 1000, the diff adds deposit 2 ending at 900, and in
  the second diff removes it again.
\<close>

definition libMaxTime :: Time where
  "libMaxTime = 9223371974719179007"

definition versionsS6 :: "ID \<Rightarrow> State option" where
  "versionsS6 = (\<lambda>i. if i = 0 then Some (stateOfDeposits libMaxTime [(1, 1000)]) else None)"

definition diffS6 :: diff where
  "diffS6 = AddDeposit 2 (depositFrom 900) (emptyDiff 0 versionsS6)"

definition diffS6removed :: diff where
  "diffS6removed = RemoveDeposit 2 (depositFrom 900) diffS6"

text \<open>
  The diff of scenario S6 after a claim of rewards of deposit 1, the parent's deposit.
\<close>

definition diffS6claimed :: diff where
  "diffS6claimed =
     ModifyDeposit 1 ((depositFrom 1000)\<lparr>ClaimedRewardAmount := 1\<rparr>) diffS6"

text \<open>A diff over a parent without deposits that adds deposit 7, ending at \<open>MaxTime\<close>.\<close>

definition versionsNoDeposits :: "ID \<Rightarrow> State option" where
  "versionsNoDeposits = (\<lambda>i. if i = 0 then Some (stateOfDeposits libMaxTime []) else None)"

definition sentinelDiff :: diff where
  "sentinelDiff = AddDeposit 7 (depositFrom 9223371974719179007) (emptyDiff 0 versionsNoDeposits)"

text \<open>A diff that removed deposit 5 and whose parent is no longer registered.\<close>

definition orphanDiff :: diff where
  "orphanDiff = RemoveDeposit 5 deposit0 (emptyDiff 0 (\<lambda>i. None))"

text \<open>
  The diff of scenario S6 after a claim of rewards of deposit 2, the deposit it added:
  \<open>ModifyDeposit\<close> stores the deposit with the claimed amount.
\<close>

definition addedThenModifiedDiff :: diff where
  "addedThenModifiedDiff =
     ModifyDeposit 2 ((depositFrom 900)\<lparr>ClaimedRewardAmount := 1\<rparr>) diffS6"

subsection \<open>Locked UTXOs, as claimed\<close>

definition lockedMatch ::
  "(LockIDs \<Rightarrow> LockState \<Rightarrow> ID set \<Rightarrow> bool) \<Rightarrow> LockState \<Rightarrow> ID set \<Rightarrow> UTXO \<Rightarrow> bool" where
  "lockedMatch Match lockState txIDs u =
     (case Out u of
        LockedOut lockIDs amt owners \<Rightarrow> Match lockIDs lockState txIDs
      | TransferOutput amt owners \<Rightarrow> False)"

text \<open>The UTXOs the diff holds under the IDs that satisfy \<open>want\<close>, when they match.\<close>

definition matchingOf ::
  "(LockIDs \<Rightarrow> LockState \<Rightarrow> ID set \<Rightarrow> bool) \<Rightarrow> LockState \<Rightarrow> ID set \<Rightarrow> (ID \<Rightarrow> bool) \<Rightarrow>
   (ID \<times> utxoModification) list \<Rightarrow> UTXO list" where
  "matchingOf Match lockState txIDs want mods =
     List.map_filter
       (\<lambda>(k, m). case utxo m of
                    None \<Rightarrow> None
                  | Some u \<Rightarrow> if want k \<and> lockedMatch Match lockState txIDs u
                              then Some u else None) mods"

text \<open>
  The answer as claim C4 words it: the parent's answer without every UTXO whose ID is in
  \<open>modifiedUTXOs\<close>, then the diff's matching UTXOs.
\<close>

definition lockedUTXOsAsClaimed ::
  "(LockIDs \<Rightarrow> LockState \<Rightarrow> ID set \<Rightarrow> bool) \<Rightarrow> diff \<Rightarrow> UTXO list \<Rightarrow>
   ID set \<Rightarrow> LockState \<Rightarrow> UTXO list" where
  "lockedUTXOsAsClaimed Match d parentAnswer txIDs lockState =
     filter (\<lambda>u. map_of (modifiedUTXOs d) (InputID u) = None) parentAnswer @
     matchingOf Match lockState txIDs (\<lambda>k. True) (modifiedUTXOs d)"

text \<open>
  The answer as the two steps of the code compute it: step 1 walks the parent's answer and
  looks each UTXO up in \<open>modifiedUTXOs\<close>; step 2 walks the entries step 1 did not meet.
\<close>

definition lockedUTXOsInSteps ::
  "(LockIDs \<Rightarrow> LockState \<Rightarrow> ID set \<Rightarrow> bool) \<Rightarrow> diff \<Rightarrow> UTXO list \<Rightarrow>
   ID set \<Rightarrow> LockState \<Rightarrow> UTXO list" where
  "lockedUTXOsInSteps Match d parentAnswer txIDs lockState =
     List.map_filter
       (\<lambda>u. case map_of (modifiedUTXOs d) (InputID u) of
               None \<Rightarrow> Some u
             | Some m \<Rightarrow> utxo m) parentAnswer @
     matchingOf Match lockState txIDs (\<lambda>k. k \<notin> InputID ` set parentAnswer)
       (modifiedUTXOs d)"

text \<open>Each modification is stored under the ID it names.\<close>

definition keyedByOwnID :: "(ID \<times> utxoModification) list \<Rightarrow> bool" where
  "keyedByOwnID mods \<longleftrightarrow> (\<forall>(k, m) \<in> set mods. utxoID m = k)"

text \<open>
  The ID of a UTXO is the transaction that made it and the index of the output there, so
  the UTXOs a diff introduces have IDs no UTXO of the parent has: under the ID of a UTXO
  of the parent's answer the diff holds a deletion or nothing.
\<close>

definition introducedAreNew :: "diff \<Rightarrow> UTXO list \<Rightarrow> bool" where
  "introducedAreNew d parentAnswer \<longleftrightarrow>
     (\<forall>(k, m) \<in> set (modifiedUTXOs d).
        utxo m \<noteq> None \<longrightarrow> k \<notin> InputID ` set parentAnswer)"

text \<open>
  \<open>locked.IDs.Match\<close> for the examples: a deposited output matches the deposit
  transactions asked for, a bonded output the bond transactions.
\<close>

definition exampleMatch :: "LockIDs \<Rightarrow> LockState \<Rightarrow> ID set \<Rightarrow> bool" where
  "exampleMatch lockIDs lockState txIDs =
     (case lockState of
        StateDeposited \<Rightarrow> DepositTxID lockIDs \<in> txIDs
      | StateBonded \<Rightarrow> BondTxID lockIDs \<in> txIDs
      | _ \<Rightarrow> False)"

definition bondedUTXO :: "ID \<Rightarrow> ID \<Rightarrow> UTXO" where
  "bondedUTXO i bondTx =
     \<lparr>InputID = i, AssetID = 0,
      Out = LockedOut \<lparr>DepositTxID = 0, BondTxID = bondTx\<rparr> 100 noOwners\<rparr>"

definition plainUTXO :: "ID \<Rightarrow> UTXO" where
  "plainUTXO i = \<lparr>InputID = i, AssetID = 0, Out = TransferOutput 100 noOwners\<rparr>"

text \<open>
  The parent answers with UTXOs 1 and 2, bonded by transaction 10. The diff deleted
  UTXO 2 and introduces the UTXOs 3, bonded by transaction 10, 4, bonded by transaction
  11, and 5, which is not locked.
\<close>

definition stateUTXOs :: State where
  "stateUTXOs = (emptyState 0)
     \<lparr>State_LockedUTXOs :=
        (\<lambda>txIDs addresses lockState. Inr [bondedUTXO 1 10, bondedUTXO 2 10])\<rparr>"

definition diffUTXOs :: diff where
  "diffUTXOs = (emptyDiff 0 (\<lambda>i. if i = 0 then Some stateUTXOs else None))
     \<lparr>modifiedUTXOs :=
        [(5, \<lparr>utxoID = 5, utxo = Some (plainUTXO 5)\<rparr>),
         (2, \<lparr>utxoID = 2, utxo = None\<rparr>),
         (3, \<lparr>utxoID = 3, utxo = Some (bondedUTXO 3 10)\<rparr>),
         (4, \<lparr>utxoID = 4, utxo = Some (bondedUTXO 4 11)\<rparr>)]\<rparr>"

subsection \<open>The calls an apply makes\<close>

text \<open>
  The setter calls \<open>ApplyCaminoState\<close> makes on the base state, in its order. A call is
  refused when it is handed a nil pointer it has to read; otherwise it writes.
\<close>

datatype baseCall =
    BaseSetNotDistributedValidatorReward uint64
  | BaseSetAddressStates ShortID uint64
  | BaseSetDepositOffer "Offer option"
  | BaseAddDeposit ID Deposit
  | BaseRemoveDeposit ID Deposit
  | BaseModifyDeposit ID Deposit
  | BaseSetMultisigAlias "Alias option"
  | BaseSetShortIDLink ShortID ShortLinkKey "ShortID option"
  | BaseSetClaimable ID "Claimable option"
  | BaseDeleteDeferredValidator "Staker option"
  | BasePutDeferredValidator "Staker option"

fun baseCall_apply :: "baseCall \<Rightarrow> BaseState \<Rightarrow> BaseState option" where
  "baseCall_apply (BaseSetNotDistributedValidatorReward reward) =
     base_SetNotDistributedValidatorReward reward"
| "baseCall_apply (BaseSetAddressStates address states) = base_SetAddressStates address states"
| "baseCall_apply (BaseSetDepositOffer offer) = base_SetDepositOffer offer"
| "baseCall_apply (BaseAddDeposit depositTxID dep) = base_AddDeposit depositTxID dep"
| "baseCall_apply (BaseRemoveDeposit depositTxID dep) = base_RemoveDeposit depositTxID dep"
| "baseCall_apply (BaseModifyDeposit depositTxID dep) = base_ModifyDeposit depositTxID dep"
| "baseCall_apply (BaseSetMultisigAlias owner) = base_SetMultisigAlias owner"
| "baseCall_apply (BaseSetShortIDLink i key link) = base_SetShortIDLink i key link"
| "baseCall_apply (BaseSetClaimable ownerID claimable) = base_SetClaimable ownerID claimable"
| "baseCall_apply (BaseDeleteDeferredValidator staker) = base_DeleteDeferredValidator staker"
| "baseCall_apply (BasePutDeferredValidator staker) = base_PutDeferredValidator staker"

fun refused :: "baseCall \<Rightarrow> bool" where
  "refused (BaseSetDepositOffer None) = True"
| "refused (BaseSetMultisigAlias None) = True"
| "refused (BaseDeleteDeferredValidator None) = True"
| "refused (BasePutDeferredValidator None) = True"
| "refused c = False"

definition written :: "baseCall \<Rightarrow> BaseState \<Rightarrow> BaseState" where
  "written c b = (case baseCall_apply c b of None \<Rightarrow> b | Some b' \<Rightarrow> b')"

definition callsOfApply :: "diff \<Rightarrow> baseCall list" where
  "callsOfApply d =
     (case modifiedNotDistributedValidatorReward d of
        None \<Rightarrow> []
      | Some reward \<Rightarrow> [BaseSetNotDistributedValidatorReward reward]) @
     map (\<lambda>(k, v). BaseSetAddressStates k v) (modifiedAddressStates d) @
     map (\<lambda>(k, depositOffer). BaseSetDepositOffer depositOffer) (modifiedDepositOffers d) @
     map (\<lambda>(depositTxID, dd).
            if added dd then BaseAddDeposit depositTxID (Deposit dd)
            else if removed dd then BaseRemoveDeposit depositTxID (Deposit dd)
            else BaseModifyDeposit depositTxID (Deposit dd)) (modifiedDeposits d) @
     map (\<lambda>(k, v). BaseSetMultisigAlias v) (modifiedMultisigOwners d) @
     map (\<lambda>(fullKey, link).
            case fromShortLinkKey fullKey of (i, key) \<Rightarrow> BaseSetShortIDLink i key link)
       (modifiedShortLinks d) @
     map (\<lambda>(ownerID, claimable). BaseSetClaimable ownerID claimable) (modifiedClaimables d) @
     concat (map (\<lambda>(subnetID, validatorDiffs).
                    map (\<lambda>(nodeID, validatorDiff).
                           if validatorDeleted validatorDiff
                           then BaseDeleteDeferredValidator (validator validatorDiff)
                           else BasePutDeferredValidator (validator validatorDiff))
                      (filter (\<lambda>(nodeID, validatorDiff). validatorModified validatorDiff)
                         validatorDiffs))
               (validatorDiffs d))"

text \<open>Scenario S5: the base holds reward 10 for owner 1 and the diff sets reward 25.\<close>

definition emptyBase :: BaseState where
  "emptyBase =
     \<lparr> base_NotDistributedValidatorReward = 0, base_AddressStates = Map.empty,
       base_DepositOffers = Map.empty, base_Deposits = Map.empty,
       base_MultisigAliases = Map.empty, base_ShortLinks = Map.empty,
       base_Claimables = Map.empty, base_DeferredValidators = Map.empty \<rparr>"

definition baseS5 :: BaseState where
  "baseS5 = emptyBase\<lparr>base_Claimables := [1 \<mapsto> claimable10]\<rparr>"

definition diffS5 :: diff where
  "diffS5 = SetClaimable 1 (Some claimable25) (emptyDiff 0 versionsS5)"

text \<open>The entry of the base state a call writes; a refused call writes none.\<close>

datatype slot =
    SlotNotDistributedValidatorReward
  | SlotAddressStates ShortID
  | SlotDepositOffer ID
  | SlotDeposit ID
  | SlotMultisigAlias ShortID
  | SlotShortLink ShortID ShortLinkKey
  | SlotClaimable ID
  | SlotDeferredValidator ID NodeID

fun slotOf :: "baseCall \<Rightarrow> slot option" where
  "slotOf (BaseSetNotDistributedValidatorReward reward) = Some SlotNotDistributedValidatorReward"
| "slotOf (BaseSetAddressStates address states) = Some (SlotAddressStates address)"
| "slotOf (BaseSetDepositOffer offer) = map_option (\<lambda>x. SlotDepositOffer (offer_ID x)) offer"
| "slotOf (BaseAddDeposit depositTxID dep) = Some (SlotDeposit depositTxID)"
| "slotOf (BaseRemoveDeposit depositTxID dep) = Some (SlotDeposit depositTxID)"
| "slotOf (BaseModifyDeposit depositTxID dep) = Some (SlotDeposit depositTxID)"
| "slotOf (BaseSetMultisigAlias owner) = map_option (\<lambda>x. SlotMultisigAlias (alias_ID x)) owner"
| "slotOf (BaseSetShortIDLink i key link) = Some (SlotShortLink i key)"
| "slotOf (BaseSetClaimable ownerID claimable) = Some (SlotClaimable ownerID)"
| "slotOf (BaseDeleteDeferredValidator staker) =
     map_option (\<lambda>s. SlotDeferredValidator (SubnetID s) (staker_NodeID s)) staker"
| "slotOf (BasePutDeferredValidator staker) =
     map_option (\<lambda>s. SlotDeferredValidator (SubnetID s) (staker_NodeID s)) staker"

subsection \<open>An example builder\<close>

text \<open>
  Lock mode is on. Key \<open>k\<close> signs for address \<open>k\<close>. \<open>Lock\<close> pays the fee from one UTXO
  of the first key. Deposit \<open>i\<close> has the rewards owner with address \<open>i\<close>, and so has the
  claimable of owner ID \<open>i\<close>. \<open>Match\<close> returns the keys whose addresses the owner lists,
  \<open>Add\<close> appends a key the keychain does not hold yet. The shared memory holds three byte
  strings: one that does not decode, a UTXO of time 100 and a UTXO of time 900; the clock
  is at 1000 and the sync bound is 500.
\<close>

definition ownerOf :: "ShortID list \<Rightarrow> OutputOwners" where
  "ownerOf addrs = \<lparr>Locktime = 0, Threshold = 1, Addrs = addrs\<rparr>"

definition feeInput :: TransferableInput where
  "feeInput = \<lparr>in_UTXOID = 1, in_Asset = 0, In = \<lparr>in_Amount = 10, SigIndices = [0]\<rparr>\<rparr>"

definition emptyBaseTx :: BaseTx where
  "emptyBaseTx = \<lparr>NetworkID = 0, BlockchainID = 0, Ins = [], Outs = []\<rparr>"

definition exampleBuilder :: builder where
  "exampleBuilder =
     \<lparr> state_CaminoConfig = Inr \<lparr>VerifyNodeSignature = False, LockModeBondDeposit = True\<rparr>,
       state_GetTx =
         (\<lambda>i. Inr (\<lparr>Unsigned = DepositTx emptyBaseTx 0 0 (SECPOwner (ownerOf [i])),
                     Creds = []\<rparr>, Committed)),
       state_GetClaimable =
         (\<lambda>i. Inr \<lparr>Owner = ownerOf [i], ValidatorReward = 0, DepositReward = 100\<rparr>),
       cfg_TxFee = 10,
       ctx_NetworkID = 0,
       ctx_ChainID = 0,
       clk_Unix = 1000,
       SharedMemory_Indexed = Inr [[0], [1], [2]],
       SharedMemorySyncBound = 500,
       Lock = (\<lambda>keys amountToLock amountToBurn lockState to change asOf.
                 Inr ([feeInput], [], [take 1 keys])),
       kc_Match = (\<lambda>keys owner now.
                 ([], filter (\<lambda>k. k \<in> set (Addrs owner)) keys, True)),
       kc_Add = (\<lambda>k kc. if k \<in> set kc then kc else kc @ [k]),
       treasury_Spend = (\<lambda>out now.
                 Inr (IsTransferableIn \<lparr>in_Amount = 100, SigIndices = []\<rparr>)),
       Codec_Unmarshal =
         (\<lambda>bs. if bs = [1] then Some \<lparr>timed_UTXO = plainUTXO 7, Timestamp = 100\<rparr>
               else if bs = [2] then Some \<lparr>timed_UTXO = plainUTXO 8, Timestamp = 900\<rparr>
               else None),
       NewSigned_error = (\<lambda>utx signers. None),
       SyntacticVerify = (\<lambda>tx. None) \<rparr>"

subsection \<open>The inputs of a rewards import\<close>

text \<open>
  The input that spends a UTXO: the UTXO's ID and asset, and what the treasury keychain's
  \<open>Spend\<close> returns for its output when that is a \<open>TransferableIn\<close>.
\<close>

definition inputOf :: "builder \<Rightarrow> UTXO \<Rightarrow> TransferableInput option" where
  "inputOf b u =
     (case treasury_Spend b (Out u) (clk_Unix b) of
        Inl err \<Rightarrow> None
      | Inr inputIntf \<Rightarrow>
          (case inputIntf of
             NotTransferableIn \<Rightarrow> None
           | IsTransferableIn input \<Rightarrow>
               Some \<lparr>in_UTXOID = InputID u, in_Asset = AssetID u, In = input\<rparr>))"

text \<open>
  The transaction of a rewards import with the given inputs: no outputs and no
  credentials.
\<close>

definition importTx :: "builder \<Rightarrow> TransferableInput list \<Rightarrow> Tx" where
  "importTx b ins =
     \<lparr>Unsigned = RewardsImportTx \<lparr>NetworkID = ctx_NetworkID b, BlockchainID = ctx_ChainID b,
                                   Ins = ins, Outs = []\<rparr>,
      Creds = []\<rparr>"

text \<open>
  A builder for the import: the clock is at 1000 and the sync bound is 500. The shared
  memory holds four byte strings: one that does not decode, UTXO 9 of time 500, UTXO 8 of
  time 900 and UTXO 7 of time 100. \<open>Spend\<close> returns an input of the amount of the
  output.
\<close>

definition amountOf :: "Output \<Rightarrow> uint64" where
  "amountOf out =
     (case out of
        TransferOutput amt owners \<Rightarrow> amt
      | LockedOut lockIDs amt owners \<Rightarrow> amt)"

definition importBuilder :: builder where
  "importBuilder = exampleBuilder
     \<lparr> SharedMemory_Indexed := Inr [[0], [3], [2], [1]],
       treasury_Spend :=
         (\<lambda>out now. Inr (IsTransferableIn \<lparr>in_Amount = amountOf out, SigIndices = []\<rparr>)),
       Codec_Unmarshal :=
         (\<lambda>bs. if bs = [1] then Some \<lparr>timed_UTXO = plainUTXO 7, Timestamp = 100\<rparr>
               else if bs = [2] then Some \<lparr>timed_UTXO = plainUTXO 8, Timestamp = 900\<rparr>
               else if bs = [3] then Some \<lparr>timed_UTXO = plainUTXO 9, Timestamp = 500\<rparr>
               else None) \<rparr>"

section \<open>Reading through the diff\<close>

lemma calls_parent [simp]:
  "parentID (calls cs d) = parentID d" "stateVersions (calls cs d) = stateVersions d"
proof (induction cs arbitrary: d)
  case Nil
  { case 1 show ?case by simp next case 2 show ?case by simp }
next
  case (Cons c cs)
  { case 1 show ?case using Cons.IH(1) [of "call c d"]
      by (cases c) (simp_all add: SetAddressStates_def SetDepositOffer_def AddDeposit_def
          ModifyDeposit_def RemoveDeposit_def SetMultisigAlias_def SetShortIDLink_def
          SetClaimable_def SetNotDistributedValidatorReward_def)
  next
    case 2 show ?case using Cons.IH(2) [of "call c d"]
      by (cases c) (simp_all add: SetAddressStates_def SetDepositOffer_def AddDeposit_def
          ModifyDeposit_def RemoveDeposit_def SetMultisigAlias_def SetShortIDLink_def
          SetClaimable_def SetNotDistributedValidatorReward_def) }
qed

lemmas setter_defs =
  SetAddressStates_def SetDepositOffer_def AddDeposit_def ModifyDeposit_def
  RemoveDeposit_def SetMultisigAlias_def SetShortIDLink_def SetClaimable_def
  SetNotDistributedValidatorReward_def

lemma last_written_calls:
  assumes step: "\<And>c d. get (call c d) = (case w c of Some r \<Rightarrow> r | None \<Rightarrow> get d)"
  shows "get (calls cs d) = (case last_written w cs of Some r \<Rightarrow> r | None \<Rightarrow> get d)"
proof (induction cs arbitrary: d)
  case Nil
  show ?case by simp
next
  case (Cons c cs)
  show ?case using Cons.IH [of "call c d"] step [of c d]
    by (simp split: option.splits)
qed

lemma GetAddressStates_call:
  "GetAddressStates (call c d) k =
     (case written_AddressStates k c of Some r \<Rightarrow> r | None \<Rightarrow> GetAddressStates d k)"
  by (cases c) (auto simp add: GetAddressStates_def setter_defs update_conv' split: option.splits)

lemma GetDepositOffer_call:
  "GetDepositOffer (call c d) k =
     (case written_DepositOffer k c of Some r \<Rightarrow> r | None \<Rightarrow> GetDepositOffer d k)"
  by (cases c) (auto simp add: GetDepositOffer_def setter_defs update_conv' split: option.splits)

lemma GetDeposit_call:
  "GetDeposit (call c d) k =
     (case written_Deposit k c of Some r \<Rightarrow> r | None \<Rightarrow> GetDeposit d k)"
  by (cases c) (auto simp add: GetDeposit_def setter_defs update_conv' split: option.splits)

lemma GetMultisigAlias_call:
  "GetMultisigAlias (call c d) k =
     (case written_MultisigAlias k c of Some r \<Rightarrow> r | None \<Rightarrow> GetMultisigAlias d k)"
  by (cases c) (auto simp add: GetMultisigAlias_def setter_defs update_conv' split: option.splits)

lemma GetShortIDLink_call:
  "GetShortIDLink (call c d) k key =
     (case written_ShortIDLink k key c of Some r \<Rightarrow> r | None \<Rightarrow> GetShortIDLink d k key)"
  by (cases c)
     (auto simp add: GetShortIDLink_def setter_defs update_conv' toShortLinkKey_def
        ptrAnswer_def split: option.splits)

lemma GetClaimable_call:
  "GetClaimable (call c d) k =
     (case written_Claimable k c of Some r \<Rightarrow> r | None \<Rightarrow> GetClaimable d k)"
  by (cases c)
     (auto simp add: GetClaimable_def setter_defs update_conv' ptrAnswer_def
        split: option.splits)

lemma GetNotDistributedValidatorReward_call:
  "GetNotDistributedValidatorReward (call c d) =
     (case written_NotDistributedValidatorReward c of Some r \<Rightarrow> r
      | None \<Rightarrow> GetNotDistributedValidatorReward d)"
  by (cases c) (auto simp add: GetNotDistributedValidatorReward_def setter_defs split: option.splits)

lemma new_diff_reads_parent:
  assumes "NewCaminoDiff pid versions = Inr d0" and "versions pid = Some P"
  shows "GetAddressStates d0 a = State_GetAddressStates P a"
    and "GetDepositOffer d0 k = State_GetDepositOffer P k"
    and "GetDeposit d0 k = State_GetDeposit P k"
    and "GetMultisigAlias d0 a = State_GetMultisigAlias P a"
    and "GetShortIDLink d0 a key = State_GetShortIDLink P a key"
    and "GetClaimable d0 k = State_GetClaimable P k"
    and "GetNotDistributedValidatorReward d0 = State_GetNotDistributedValidatorReward P"
  using assms
  by (auto simp add: NewCaminoDiff_def GetAddressStates_def GetDepositOffer_def
      GetDeposit_def GetMultisigAlias_def GetShortIDLink_def GetClaimable_def
      GetNotDistributedValidatorReward_def)

text \<open>
  Claim C2. Let \<open>d0\<close> be a new diff over a parent \<open>P\<close> that \<open>stateVersions\<close> resolves,
  and let any sequence \<open>cs\<close> of setter calls run on it. Each getter then answers the
  parent's answer for a key no call has written, and otherwise what the last call on
  that key stored (a stored tombstone reads as \<open>ErrNotFound\<close>).
\<close>

theorem diff_read_through:
  assumes "NewCaminoDiff pid versions = Inr d0" and "versions pid = Some P"
  shows
    "GetAddressStates (calls cs d0) address =
       (case last_written (written_AddressStates address) cs of
          None \<Rightarrow> State_GetAddressStates P address | Some r \<Rightarrow> r) \<and>
     GetDepositOffer (calls cs d0) offerID =
       (case last_written (written_DepositOffer offerID) cs of
          None \<Rightarrow> State_GetDepositOffer P offerID | Some r \<Rightarrow> r) \<and>
     GetDeposit (calls cs d0) depositTxID =
       (case last_written (written_Deposit depositTxID) cs of
          None \<Rightarrow> State_GetDeposit P depositTxID | Some r \<Rightarrow> r) \<and>
     GetMultisigAlias (calls cs d0) alias =
       (case last_written (written_MultisigAlias alias) cs of
          None \<Rightarrow> State_GetMultisigAlias P alias | Some r \<Rightarrow> r) \<and>
     GetShortIDLink (calls cs d0) i key =
       (case last_written (written_ShortIDLink i key) cs of
          None \<Rightarrow> State_GetShortIDLink P i key | Some r \<Rightarrow> r) \<and>
     GetClaimable (calls cs d0) ownerID =
       (case last_written (written_Claimable ownerID) cs of
          None \<Rightarrow> State_GetClaimable P ownerID | Some r \<Rightarrow> r) \<and>
     GetNotDistributedValidatorReward (calls cs d0) =
       (case last_written written_NotDistributedValidatorReward cs of
          None \<Rightarrow> State_GetNotDistributedValidatorReward P | Some r \<Rightarrow> r)"
proof -
  note base = new_diff_reads_parent [OF assms]
  have 1: "GetAddressStates (calls cs d0) address =
       (case last_written (written_AddressStates address) cs of
          None \<Rightarrow> State_GetAddressStates P address | Some r \<Rightarrow> r)"
    using last_written_calls [of "\<lambda>d. GetAddressStates d address"
        "written_AddressStates address" cs d0]
    by (simp add: GetAddressStates_call base(1) split: option.splits)
  have 2: "GetDepositOffer (calls cs d0) offerID =
       (case last_written (written_DepositOffer offerID) cs of
          None \<Rightarrow> State_GetDepositOffer P offerID | Some r \<Rightarrow> r)"
    using last_written_calls [of "\<lambda>d. GetDepositOffer d offerID"
        "written_DepositOffer offerID" cs d0]
    by (simp add: GetDepositOffer_call base(2) split: option.splits)
  have 3: "GetDeposit (calls cs d0) depositTxID =
       (case last_written (written_Deposit depositTxID) cs of
          None \<Rightarrow> State_GetDeposit P depositTxID | Some r \<Rightarrow> r)"
    using last_written_calls [of "\<lambda>d. GetDeposit d depositTxID"
        "written_Deposit depositTxID" cs d0]
    by (simp add: GetDeposit_call base(3) split: option.splits)
  have 4: "GetMultisigAlias (calls cs d0) alias =
       (case last_written (written_MultisigAlias alias) cs of
          None \<Rightarrow> State_GetMultisigAlias P alias | Some r \<Rightarrow> r)"
    using last_written_calls [of "\<lambda>d. GetMultisigAlias d alias"
        "written_MultisigAlias alias" cs d0]
    by (simp add: GetMultisigAlias_call base(4) split: option.splits)
  have 5: "GetShortIDLink (calls cs d0) i key =
       (case last_written (written_ShortIDLink i key) cs of
          None \<Rightarrow> State_GetShortIDLink P i key | Some r \<Rightarrow> r)"
    using last_written_calls [of "\<lambda>d. GetShortIDLink d i key"
        "written_ShortIDLink i key" cs d0]
    by (simp add: GetShortIDLink_call base(5) split: option.splits)
  have 6: "GetClaimable (calls cs d0) ownerID =
       (case last_written (written_Claimable ownerID) cs of
          None \<Rightarrow> State_GetClaimable P ownerID | Some r \<Rightarrow> r)"
    using last_written_calls [of "\<lambda>d. GetClaimable d ownerID"
        "written_Claimable ownerID" cs d0]
    by (simp add: GetClaimable_call base(6) split: option.splits)
  have 7: "GetNotDistributedValidatorReward (calls cs d0) =
       (case last_written written_NotDistributedValidatorReward cs of
          None \<Rightarrow> State_GetNotDistributedValidatorReward P | Some r \<Rightarrow> r)"
    using last_written_calls [of "\<lambda>d. GetNotDistributedValidatorReward d"
        written_NotDistributedValidatorReward cs d0]
    by (simp add: GetNotDistributedValidatorReward_call base(7) split: option.splits)
  from 1 2 3 4 5 6 7 show ?thesis by blast
qed

text \<open>
  Scenario S5 as the instance: over a parent that holds reward 10 for owner 1, a diff that
  sets the claimable to reward 25 reads 25, and reads the parent for the owner it has not
  written and for an address state.
\<close>

theorem diff_read_through_witness:
  "NewCaminoDiff 0 versionsS5 = Inr (emptyDiff 0 versionsS5) \<and>
   versionsS5 0 = Some stateS5 \<and>
   GetClaimable (calls [CallSetClaimable 1 (Some claimable25), CallSetAddressStates 8 2]
                   (emptyDiff 0 versionsS5)) 1 = Inr claimable25 \<and>
   GetClaimable (calls [CallSetClaimable 2 (Some claimable25)] (emptyDiff 0 versionsS5)) 1
     = Inr claimable10 \<and>
   GetAddressStates (calls [CallSetClaimable 2 (Some claimable25)] (emptyDiff 0 versionsS5)) 8
     = Inr 0"
proof -
  have n: "NewCaminoDiff 0 versionsS5 = Inr (emptyDiff 0 versionsS5)"
    by (simp add: NewCaminoDiff_def versionsS5_def emptyDiff_def stateS5_def emptyState_def)
  have v: "versionsS5 0 = Some stateS5"
    by (simp add: versionsS5_def)
  show ?thesis
    using n v
      diff_read_through [OF n v,
        of "[CallSetClaimable 1 (Some claimable25), CallSetAddressStates 8 2]" 8 0 0 0 0
           ShortLinkKeyRegisterNode 1]
      diff_read_through [OF n v, of "[CallSetClaimable 2 (Some claimable25)]" 8 0 0 0 0
           ShortLinkKeyRegisterNode 1]
    by (simp add: ptrAnswer_def stateS5_def emptyState_def)
qed

section \<open>Tombstones\<close>

text \<open>
  Claim C7. When the diff's own map holds a tombstone for the key (a nil alias, link or
  claimable, or a deposit marked removed), \<open>GetMultisigAlias\<close>, \<open>GetShortIDLink\<close>,
  \<open>GetClaimable\<close> and \<open>GetDeposit\<close> answer \<open>ErrNotFound\<close>, and the parent is not asked:
  the answer is the same whatever \<open>stateVersions\<close> and \<open>parentID\<close> are, also when the
  parent does not resolve.
\<close>

theorem tombstone_short_circuits:
  "(map_of (modifiedMultisigOwners d) alias = Some None \<longrightarrow>
      GetMultisigAlias (d\<lparr>parentID := p, stateVersions := vs\<rparr>) alias = Inl ErrNotFound) \<and>
   (map_of (modifiedShortLinks d) (toShortLinkKey i key) = Some None \<longrightarrow>
      GetShortIDLink (d\<lparr>parentID := p, stateVersions := vs\<rparr>) i key = Inl ErrNotFound) \<and>
   (map_of (modifiedClaimables d) ownerID = Some None \<longrightarrow>
      GetClaimable (d\<lparr>parentID := p, stateVersions := vs\<rparr>) ownerID = Inl ErrNotFound) \<and>
   ((\<exists>dd. map_of (modifiedDeposits d) depositTxID = Some dd \<and> removed dd) \<longrightarrow>
      GetDeposit (d\<lparr>parentID := p, stateVersions := vs\<rparr>) depositTxID = Inl ErrNotFound)"
proof (intro conjI impI)
  let ?d = "d\<lparr>parentID := p, stateVersions := vs\<rparr>"
  assume "map_of (modifiedMultisigOwners d) alias = Some None"
  then show "GetMultisigAlias ?d alias = Inl ErrNotFound"
    by (simp add: GetMultisigAlias_def)
next
  let ?d = "d\<lparr>parentID := p, stateVersions := vs\<rparr>"
  assume "map_of (modifiedShortLinks d) (toShortLinkKey i key) = Some None"
  then show "GetShortIDLink ?d i key = Inl ErrNotFound"
    by (simp add: GetShortIDLink_def)
next
  let ?d = "d\<lparr>parentID := p, stateVersions := vs\<rparr>"
  assume "map_of (modifiedClaimables d) ownerID = Some None"
  then show "GetClaimable ?d ownerID = Inl ErrNotFound"
    by (simp add: GetClaimable_def)
next
  let ?d = "d\<lparr>parentID := p, stateVersions := vs\<rparr>"
  assume "\<exists>dd. map_of (modifiedDeposits d) depositTxID = Some dd \<and> removed dd"
  then obtain dd where "map_of (modifiedDeposits d) depositTxID = Some dd" and "removed dd"
    by blast
  then show "GetDeposit ?d depositTxID = Inl ErrNotFound"
    by (simp add: GetDeposit_def)
qed

theorem tombstone_short_circuits_witness:
  "map_of (modifiedMultisigOwners tombstoneDiff) 5 = Some None \<and>
   map_of (modifiedShortLinks tombstoneDiff) (toShortLinkKey 5 ShortLinkKeyRegisterNode)
     = Some None \<and>
   map_of (modifiedClaimables tombstoneDiff) 5 = Some None \<and>
   (\<exists>dd. map_of (modifiedDeposits tombstoneDiff) 5 = Some dd \<and> removed dd) \<and>
   GetMultisigAlias (tombstoneDiff\<lparr>parentID := 9, stateVersions := (\<lambda>i. None)\<rparr>) 5
     = Inl ErrNotFound \<and>
   GetShortIDLink (tombstoneDiff\<lparr>parentID := 9, stateVersions := (\<lambda>i. None)\<rparr>) 5
     ShortLinkKeyRegisterNode = Inl ErrNotFound \<and>
   GetClaimable (tombstoneDiff\<lparr>parentID := 9, stateVersions := (\<lambda>i. None)\<rparr>) 5
     = Inl ErrNotFound \<and>
   GetDeposit (tombstoneDiff\<lparr>parentID := 9, stateVersions := (\<lambda>i. None)\<rparr>) 5
     = Inl ErrNotFound"
proof -
  have h: "map_of (modifiedMultisigOwners tombstoneDiff) 5 = Some None \<and>
      map_of (modifiedShortLinks tombstoneDiff) (toShortLinkKey 5 ShortLinkKeyRegisterNode)
        = Some None \<and>
      map_of (modifiedClaimables tombstoneDiff) 5 = Some None \<and>
      (\<exists>dd. map_of (modifiedDeposits tombstoneDiff) 5 = Some dd \<and> removed dd)"
    by (simp add: tombstoneDiff_def emptyDiff_def toShortLinkKey_def)
  show ?thesis
    using h tombstone_short_circuits [of tombstoneDiff 5 "\<lambda>i. None" 9 5
        ShortLinkKeyRegisterNode 5 5]
    by blast
qed

section \<open>Locked offers\<close>

text \<open>
  Claim C9. An offer whose flags contain the locked flag is in no answer of the service's
  \<open>GetAllDepositOffers\<close> with \<open>active = true\<close>, whatever the state lists; and the diff's
  \<open>GetDepositOffer\<close> does not look at the flags: it returns the offer by its ID when the
  diff stores it, and when the diff has not written that ID and the parent returns it.
\<close>

theorem locked_offer_hidden_but_resolvable:
  assumes "Flags offer AND OfferFlagLocked \<noteq> 0"
  shows
    "(\<forall>stateOffers res.
        CaminoService_GetAllDepositOffers OfferFlagLocked stateOffers True = Inr res
          \<longrightarrow> offer \<notin> set res) \<and>
     GetDepositOffer (SetDepositOffer offer d) (offer_ID offer) = Inr (Some offer) \<and>
     (map_of (modifiedDepositOffers d) (offer_ID offer) = None \<and>
      stateVersions d (parentID d) = Some P \<and>
      State_GetDepositOffer P (offer_ID offer) = Inr (Some offer)
        \<longrightarrow> GetDepositOffer d (offer_ID offer) = Inr (Some offer))"
proof (intro conjI allI impI)
  fix stateOffers res
  assume "CaminoService_GetAllDepositOffers OfferFlagLocked stateOffers True = Inr res"
  then have "res = filter (\<lambda>x. Flags x AND OfferFlagLocked = 0) (projr stateOffers)"
    by (cases stateOffers) (auto simp add: CaminoService_GetAllDepositOffers_def)
  then show "offer \<notin> set res"
    using assms by simp
next
  show "GetDepositOffer (SetDepositOffer offer d) (offer_ID offer) = Inr (Some offer)"
    by (simp add: GetDepositOffer_def SetDepositOffer_def update_conv')
next
  assume "map_of (modifiedDepositOffers d) (offer_ID offer) = None \<and>
      stateVersions d (parentID d) = Some P \<and>
      State_GetDepositOffer P (offer_ID offer) = Inr (Some offer)"
  then show "GetDepositOffer d (offer_ID offer) = Inr (Some offer)"
    by (simp add: GetDepositOffer_def)
qed

text \<open>
  The instance: the parent lists a locked and an open offer. The active query over the
  diff's list of all offers answers the open one only; the diff returns the locked offer
  by ID, from the parent and also once it stores the offer itself.
\<close>

theorem locked_offer_hidden_but_resolvable_witness:
  "Flags lockedOffer AND 1 \<noteq> 0 \<and>
   GetAllDepositOffers diffOffers = Inr [lockedOffer, openOffer] \<and>
   CaminoService_GetAllDepositOffers 1 (GetAllDepositOffers diffOffers) True
     = Inr [openOffer] \<and>
   lockedOffer \<notin> set [openOffer] \<and>
   GetDepositOffer (SetDepositOffer lockedOffer diffOffers) (offer_ID lockedOffer)
     = Inr (Some lockedOffer) \<and>
   map_of (modifiedDepositOffers diffOffers) (offer_ID lockedOffer) = None \<and>
   stateVersions diffOffers (parentID diffOffers) = Some stateOffers \<and>
   State_GetDepositOffer stateOffers (offer_ID lockedOffer) = Inr (Some lockedOffer) \<and>
   GetDepositOffer diffOffers (offer_ID lockedOffer) = Inr (Some lockedOffer)"
proof -
  have h: "Flags lockedOffer AND 1 \<noteq> 0"
    by (simp add: lockedOffer_def)
  have a: "GetAllDepositOffers diffOffers = Inr [lockedOffer, openOffer]"
    by (simp add: GetAllDepositOffers_def diffOffers_def emptyDiff_def stateOffers_def
        emptyState_def List.map_filter_def)
  have s: "CaminoService_GetAllDepositOffers 1 (GetAllDepositOffers diffOffers) True
      = Inr [openOffer]"
    by (simp add: a CaminoService_GetAllDepositOffers_def lockedOffer_def openOffer_def)
  have p: "map_of (modifiedDepositOffers diffOffers) (offer_ID lockedOffer) = None \<and>
      stateVersions diffOffers (parentID diffOffers) = Some stateOffers \<and>
      State_GetDepositOffer stateOffers (offer_ID lockedOffer) = Inr (Some lockedOffer)"
    by (simp add: diffOffers_def emptyDiff_def stateOffers_def emptyState_def lockedOffer_def)
  note t = locked_offer_hidden_but_resolvable [OF h, of diffOffers stateOffers]
  from t s have n: "lockedOffer \<notin> set [openOffer]"
    by blast
  from t p have g: "GetDepositOffer diffOffers (offer_ID lockedOffer) = Inr (Some lockedOffer)"
    by blast
  from t have g': "GetDepositOffer (SetDepositOffer lockedOffer diffOffers)
      (offer_ID lockedOffer) = Inr (Some lockedOffer)"
    by blast
  from h a s n g' p g show ?thesis
    by blast
qed

section \<open>Next deposit to unlock\<close>

lemma addRemoved_eq:
  "addRemoved deposits E = E \<union> set (map fst (filter (\<lambda>(k, dd). removed dd) deposits))"
  unfolding addRemoved_def
  by (induction deposits arbitrary: E) auto

lemma addRemoved_removedIDs:
  "addRemoved (modifiedDeposits d) E = E \<union> removedIDs d"
  by (simp add: addRemoved_eq removedIDs_def)

lemma earliestAdded_step:
  fixes e t :: Time
  shows "(if a \<and> e < t \<and> k \<notin> X then e else t) = (if a \<and> k \<notin> X then min e t else t)"
  by (auto simp add: min_def)

lemma earliestAdded_fold_min:
  "earliestAdded deposits X t = fold min (map snd (addedCandidates deposits X)) t"
  unfolding earliestAdded_def addedCandidates_def
proof (induction deposits arbitrary: t)
  case Nil
  show ?case by simp
next
  case (Cons x deposits)
  obtain k dd where x: "x = (k, dd)" by (cases x)
  show ?case
    using Cons.IH [of "if added dd \<and> k \<notin> X then min (EndTime (Deposit dd)) t else t"]
    by (simp add: x earliestAdded_step)
qed

lemma fold_min_Min:
  fixes t :: Time
  shows "fold min ts t = Min (insert t (set ts))"
proof -
  have "Min (set (t # ts)) = fold min ts t"
    by (rule Min.set_eq_fold)
  then show ?thesis by simp
qed

lemma addedAt_eq:
  "addedAt deposits X t = map fst (filter (\<lambda>(k, t'). t' = t) (addedCandidates deposits X))"
  unfolding addedAt_def addedCandidates_def
  by (induction deposits) auto

lemma earliestEnd_append:
  "cP \<noteq> [] \<Longrightarrow> cA \<noteq> [] \<Longrightarrow> earliestEnd (cP @ cA) = min (earliestEnd cP) (earliestEnd cA)"
  unfolding earliestEnd_def
  by (simp add: Min_Un)

lemma fold_min_earliestEnd:
  fixes t :: Time
  shows "cA \<noteq> [] \<Longrightarrow> fold min (map snd cA) t = min t (earliestEnd cA)"
  unfolding earliestEnd_def
  by (simp add: fold_min_Min)

lemma earliestEnd_le:
  "(k, t) \<in> set cs \<Longrightarrow> earliestEnd cs \<le> t"
  unfolding earliestEnd_def
  by (force intro!: Min_le)

lemma earliestEnd_in:
  "cs \<noteq> [] \<Longrightarrow> \<exists>k. (k, earliestEnd cs) \<in> set cs"
proof -
  assume "cs \<noteq> []"
  then have "Min (set (map snd cs)) \<in> set (map snd cs)"
    by (intro Min_in) auto
  then show ?thesis
    unfolding earliestEnd_def by auto
qed

lemma filter_below_earliest:
  "t < earliestEnd cs \<Longrightarrow> filter (\<lambda>(k, t'). t' = t) cs = []"
  using earliestEnd_le by (fastforce simp add: filter_empty_conv)

lemma filter_at_earliest:
  "cs \<noteq> [] \<Longrightarrow> filter (\<lambda>(k, t'). t' = earliestEnd cs) cs \<noteq> []"
  using earliestEnd_in [of cs] by (fastforce simp add: filter_empty_conv)

lemma sort_sort_append:
  fixes xs ys :: "ID list"
  shows "sort (sort xs @ ys) = sort (xs @ ys)"
  by (rule properties_for_sort) simp_all

lemma endingAt_append:
  "endingAt (cP @ cA) t =
     sort (map fst (filter (\<lambda>(k, t'). t' = t) cP) @ map fst (filter (\<lambda>(k, t'). t' = t) cA))"
  by (simp add: endingAt_def)

lemma next_combine:
  fixes MaxTime :: Time
  assumes pres: "(pids, pt, pe) =
      (if cP = [] \<or> MaxTime \<le> earliestEnd cP then ([], MaxTime, Some ErrNotFound)
       else (endingAt cP (earliestEnd cP), earliestEnd cP, None))"
    and nxt: "nxt = fold min (map snd cA) pt"
  shows "(if nxt = MaxTime then ([], MaxTime, Some ErrNotFound)
          else (let ids0 = (if \<not> pt > nxt then pids else []);
                    addedIDs = map fst (filter (\<lambda>(k, t'). t' = nxt) cA)
                in (if addedIDs \<noteq> [] then sort (ids0 @ addedIDs) else ids0, nxt, None)))
       = (if cP @ cA = [] \<or> MaxTime \<le> earliestEnd (cP @ cA)
          then ([], MaxTime, Some ErrNotFound)
          else (endingAt (cP @ cA) (earliestEnd (cP @ cA)), earliestEnd (cP @ cA), None))"
proof (cases "cP = [] \<or> MaxTime \<le> earliestEnd cP")
  case noP: True
  then have pt: "pt = MaxTime" and pids: "pids = []" using pres by simp_all
  show ?thesis
  proof (cases "cA = [] \<or> MaxTime \<le> earliestEnd cA")
    case noA: True
    have n: "nxt = MaxTime"
    proof (cases "cA = []")
      case True
      then show ?thesis using nxt pt by simp
    next
      case False
      then have "MaxTime \<le> earliestEnd cA" using noA by simp
      then show ?thesis using False nxt pt by (simp add: fold_min_earliestEnd)
    qed
    have "cP @ cA = [] \<or> MaxTime \<le> earliestEnd (cP @ cA)"
    proof (cases "cP = []")
      case True
      then show ?thesis using noA by auto
    next
      case False
      then show ?thesis using noP noA
        by (cases "cA = []") (auto simp add: earliestEnd_append)
    qed
    then show ?thesis using n by simp
  next
    case A: False
    then have cA: "cA \<noteq> []" and lt: "earliestEnd cA < MaxTime" by auto
    have n: "nxt = earliestEnd cA"
      using cA lt nxt pt by (simp add: fold_min_earliestEnd)
    have e: "earliestEnd (cP @ cA) = earliestEnd cA"
      using noP cA lt by (cases "cP = []") (auto simp add: earliestEnd_append)
    have fP: "filter (\<lambda>(k, t'). t' = earliestEnd cA) cP = []"
    proof (cases "cP = []")
      case True
      then show ?thesis by simp
    next
      case False
      then have "earliestEnd cA < earliestEnd cP" using noP lt by auto
      then show ?thesis by (rule filter_below_earliest)
    qed
    have fA: "map fst (filter (\<lambda>(k, t'). t' = earliestEnd cA) cA) \<noteq> []"
      using filter_at_earliest [OF cA] by simp
    show ?thesis
      using n e lt cA fP fA pt
      by (simp add: endingAt_append Let_def)
  qed
next
  case P: False
  then have cP: "cP \<noteq> []" and ltP: "earliestEnd cP < MaxTime" by auto
  have pt: "pt = earliestEnd cP" and pids: "pids = endingAt cP (earliestEnd cP)"
    using P pres by simp_all
  show ?thesis
  proof (cases "cA = []")
    case True
    then show ?thesis
      using cP ltP pt pids nxt by (simp add: Let_def)
  next
    case cA: False
    have n: "nxt = min (earliestEnd cP) (earliestEnd cA)"
      using cA nxt pt by (simp add: fold_min_earliestEnd)
    have e: "earliestEnd (cP @ cA) = min (earliestEnd cP) (earliestEnd cA)"
      using cP cA by (rule earliestEnd_append)
    have nlt: "nxt \<noteq> MaxTime" "\<not> MaxTime \<le> nxt" using n ltP by auto
    consider (lt) "earliestEnd cP < earliestEnd cA"
      | (eq) "earliestEnd cP = earliestEnd cA"
      | (gt) "earliestEnd cA < earliestEnd cP"
      by linarith
    then show ?thesis
    proof cases
      case lt
      then have n': "nxt = earliestEnd cP" using n by simp
      have fA: "filter (\<lambda>(k, t'). t' = earliestEnd cP) cA = []"
        using lt by (rule filter_below_earliest)
      show ?thesis
        using n' e n nlt cP fA pt pids
        by (simp add: endingAt_append Let_def) (simp add: endingAt_def)
    next
      case eq
      then have n': "nxt = earliestEnd cP" using n by simp
      have fA: "map fst (filter (\<lambda>(k, t'). t' = earliestEnd cP) cA) \<noteq> []"
        using filter_at_earliest [OF cA] eq by simp
      show ?thesis
        using n' e n nlt cP fA pt pids
        by (simp add: endingAt_append Let_def) (simp add: endingAt_def sort_sort_append)
    next
      case gt
      then have n': "nxt = earliestEnd cA" using n by simp
      have fP: "filter (\<lambda>(k, t'). t' = earliestEnd cA) cP = []"
        using gt by (rule filter_below_earliest)
      have fA: "map fst (filter (\<lambda>(k, t'). t' = earliestEnd cA) cA) \<noteq> []"
        using filter_at_earliest [OF cA] by simp
      show ?thesis
        using n' e n nlt cP fA fP pt pids gt
        by (simp add: endingAt_append Let_def)
    qed
  qed
qed

lemma candidates_marked:
  "candidates (markedDeposits d deps) E =
     candidates deps (E \<union> removedIDs d) @
     addedCandidates (modifiedDeposits d) (E \<union> removedIDs d)"
proof -
  have 1: "filter (\<lambda>(k, t). k \<notin> E) (filter (\<lambda>(k, t). k \<notin> removedIDs d) xs)
      = filter (\<lambda>(k, t). k \<notin> E \<union> removedIDs d) xs" for xs :: "(ID \<times> Time) list"
    by (induction xs) auto
  have 2: "filter (\<lambda>(k, t). k \<notin> X) (addedCandidates ms Y) = addedCandidates ms (X \<union> Y)"
    for X Y ms
    unfolding addedCandidates_def by (induction ms) auto
  show ?thesis
    unfolding candidates_def markedDeposits_def
    by (simp only: filter_append 1 2) simp
qed

lemma addedCandidates_new:
  assumes "addedAreNew d deps PR"
  shows "addedCandidates (modifiedDeposits d) (X \<union> PR) = addedCandidates (modifiedDeposits d) X"
proof -
  have "filter (\<lambda>(k, dd). added dd \<and> k \<notin> X \<union> PR) (modifiedDeposits d)
      = filter (\<lambda>(k, dd). added dd \<and> k \<notin> X) (modifiedDeposits d)"
    using assms unfolding addedAreNew_def
    by (intro filter_cong) auto
  then show ?thesis
    unfolding addedCandidates_def by simp
qed

text \<open>
  The query in terms of the marks: the answer over the parent's deposits and the entries
  marked added, without the entries marked removed.
\<close>

lemma GetNextToUnlockDepositIDsAndTime_marked:
  assumes res: "stateVersions d (parentID d) = Some P"
    and par: "answersFor MaxTime P parentDeposits parentRemoved"
    and new: "addedAreNew d parentDeposits parentRemoved"
  shows "GetNextToUnlockDepositIDsAndTime MaxTime d E =
     (nextToUnlock MaxTime (markedDeposits d parentDeposits) E,
      E \<union> removedIDs d \<union> parentRemoved)"
proof -
  define E1 where "E1 = E \<union> removedIDs d"
  define cP where "cP = candidates parentDeposits E1"
  define cA where "cA = addedCandidates (modifiedDeposits d) E1"
  obtain pids pt pe where p: "nextToUnlock MaxTime parentDeposits E1 = (pids, pt, pe)"
    by (cases "nextToUnlock MaxTime parentDeposits E1") auto
  have pres: "(pids, pt, pe) =
      (if cP = [] \<or> MaxTime \<le> earliestEnd cP then ([], MaxTime, Some ErrNotFound)
       else (endingAt cP (earliestEnd cP), earliestEnd cP, None))"
    using p unfolding nextToUnlock_def cP_def by (simp add: Let_def)
  have pe: "\<not> (pe \<noteq> None \<and> pe \<noteq> Some ErrNotFound)"
    using pres by (auto split: if_splits)
  have call: "State_GetNextToUnlockDepositIDsAndTime P
      (addRemoved (modifiedDeposits d) E) =
        ((pids, pt, pe), E \<union> removedIDs d \<union> parentRemoved)"
    using par p unfolding answersFor_def E1_def by (simp add: addRemoved_removedIDs)
  have left: "addRemoved (modifiedDeposits d) E \<union> (E \<union> removedIDs d \<union> parentRemoved)
      = E \<union> removedIDs d \<union> parentRemoved"
    by (auto simp add: addRemoved_removedIDs)
  have cA': "addedCandidates (modifiedDeposits d) (E \<union> removedIDs d \<union> parentRemoved) = cA"
    unfolding cA_def E1_def by (rule addedCandidates_new [OF new])
  have ce: "candidates (markedDeposits d parentDeposits) E = cP @ cA"
    unfolding cP_def cA_def E1_def by (rule candidates_marked)
  have rhs: "nextToUnlock MaxTime (markedDeposits d parentDeposits) E =
      (if cP @ cA = [] \<or> MaxTime \<le> earliestEnd (cP @ cA)
       then ([], MaxTime, Some ErrNotFound)
       else (endingAt (cP @ cA) (earliestEnd (cP @ cA)), earliestEnd (cP @ cA), None))"
    unfolding nextToUnlock_def ce by (simp add: Let_def)
  show ?thesis
    unfolding GetNextToUnlockDepositIDsAndTime_def rhs
      next_combine [OF pres refl, of cA, symmetric]
    using pe
    by (cases pe)
      (simp_all add: res call left earliestAdded_fold_min addedAt_eq cA' Let_def)
qed

text \<open>
  Where \<open>ModifyDeposit\<close> was called for deposits of the parent only, the deposits the
  loops take into account are the effective deposits, up to their order.
\<close>

lemma distinct_keys_marked:
  assumes new: "addedAreNew d parentDeposits parentRemoved"
    and keysP: "distinct (map fst parentDeposits)"
    and keysD: "distinct (map fst (modifiedDeposits d))"
  shows "distinct (map fst (candidates (markedDeposits d parentDeposits) E))"
proof -
  let ?X = "E \<union> removedIDs d"
  have 1: "distinct (map fst (candidates parentDeposits ?X))"
    unfolding candidates_def using keysP by (rule distinct_map_filter)
  have m: "map fst (addedCandidates (modifiedDeposits d) ?X) =
      map fst (filter (\<lambda>(k, dd). added dd \<and> k \<notin> ?X) (modifiedDeposits d))"
    unfolding addedCandidates_def by (simp add: o_def split_def)
  have 2: "distinct (map fst (addedCandidates (modifiedDeposits d) ?X))"
    unfolding m using keysD by (rule distinct_map_filter)
  have 3: "set (map fst (candidates parentDeposits ?X)) \<inter>
      set (map fst (addedCandidates (modifiedDeposits d) ?X)) = {}"
    using new unfolding m addedAreNew_def candidates_def by fastforce
  show ?thesis
    unfolding candidates_marked using 1 2 3 by simp
qed

lemma distinct_keys_effective:
  assumes keysP: "distinct (map fst parentDeposits)"
    and keysD: "distinct (map fst (modifiedDeposits d))"
  shows "distinct (map fst (candidates (effectiveDeposits d parentDeposits) E))"
proof -
  let ?P = "filter (\<lambda>(k, t). k \<notin> fst ` set (modifiedDeposits d)) parentDeposits"
  let ?D = "filter (\<lambda>(k, dd). \<not> removed dd) (modifiedDeposits d)"
  have 1: "distinct (map fst ?P)"
    using keysP by (rule distinct_map_filter)
  have m: "map fst (map (\<lambda>(k, dd). (k, EndTime (Deposit dd))) ?D) = map fst ?D"
    by (simp add: o_def split_def)
  have 2: "distinct (map fst ?D)"
    using keysD by (rule distinct_map_filter)
  have "k \<notin> fst ` set (modifiedDeposits d)" if "k \<in> set (map fst ?P)" for k
    using that by force
  moreover have "k \<in> fst ` set (modifiedDeposits d)" if "k \<in> set (map fst ?D)" for k
    using that by force
  ultimately have 3: "set (map fst ?P) \<inter> set (map fst ?D) = {}"
    by blast
  have "distinct (map fst (effectiveDeposits d parentDeposits))"
    unfolding effectiveDeposits_def map_append m using 1 2 3 by simp
  then show ?thesis
    unfolding candidates_def by (rule distinct_map_filter)
qed

lemma set_effective_marked:
  assumes new: "addedAreNew d parentDeposits parentRemoved"
    and held: "modifiedAreHeld d parentDeposits"
    and keysP: "distinct (map fst parentDeposits)"
    and keysD: "distinct (map fst (modifiedDeposits d))"
  shows "set (effectiveDeposits d parentDeposits) = set (markedDeposits d parentDeposits)"
proof (rule set_eqI)
  fix x :: "ID \<times> Time"
  obtain k t where x: "x = (k, t)" by (cases x)
  have one: "dd = dd'" if "(k, dd) \<in> set (modifiedDeposits d)"
    and "(k, dd') \<in> set (modifiedDeposits d)" for dd dd'
    using that keysD by (meson eq_key_imp_eq_value)
  have oneP: "t1 = t2" if "(k, t1) \<in> set parentDeposits" and "(k, t2) \<in> set parentDeposits"
    for t1 t2
    using that keysP by (meson eq_key_imp_eq_value)
  have E: "(k, t) \<in> set (effectiveDeposits d parentDeposits) \<longleftrightarrow>
      ((k, t) \<in> set parentDeposits \<and> k \<notin> fst ` set (modifiedDeposits d)) \<or>
      (\<exists>dd. (k, dd) \<in> set (modifiedDeposits d) \<and> \<not> removed dd \<and> t = EndTime (Deposit dd))"
    unfolding effectiveDeposits_def by force
  have M: "(k, t) \<in> set (markedDeposits d parentDeposits) \<longleftrightarrow>
      k \<notin> removedIDs d \<and>
      ((k, t) \<in> set parentDeposits \<or>
       (\<exists>dd. (k, dd) \<in> set (modifiedDeposits d) \<and> added dd \<and> t = EndTime (Deposit dd)))"
    unfolding markedDeposits_def addedCandidates_def by force
  have R: "k \<in> removedIDs d \<longleftrightarrow> (\<exists>dd. (k, dd) \<in> set (modifiedDeposits d) \<and> removed dd)"
    unfolding removedIDs_def by force
  have "(k, t) \<in> set (effectiveDeposits d parentDeposits) \<longleftrightarrow>
      (k, t) \<in> set (markedDeposits d parentDeposits)"
  proof
    assume "(k, t) \<in> set (effectiveDeposits d parentDeposits)"
    then consider (parent) "(k, t) \<in> set parentDeposits" "k \<notin> fst ` set (modifiedDeposits d)"
      | (entry) dd where "(k, dd) \<in> set (modifiedDeposits d)" "\<not> removed dd"
          "t = EndTime (Deposit dd)"
      using E by blast
    then show "(k, t) \<in> set (markedDeposits d parentDeposits)"
    proof cases
      case parent
      then have "k \<notin> removedIDs d" using R by force
      then show ?thesis using parent M by blast
    next
      case entry
      have nr: "k \<notin> removedIDs d"
        using R one [OF entry(1)] entry(2) by blast
      show ?thesis
      proof (cases "added dd")
        case True
        then show ?thesis using M nr entry by blast
      next
        case False
        then have "(k, t) \<in> set parentDeposits"
          using held entry unfolding modifiedAreHeld_def by blast
        then show ?thesis using M nr by blast
      qed
    qed
  next
    assume "(k, t) \<in> set (markedDeposits d parentDeposits)"
    then have nr: "k \<notin> removedIDs d"
      and cases: "(k, t) \<in> set parentDeposits \<or>
        (\<exists>dd. (k, dd) \<in> set (modifiedDeposits d) \<and> added dd \<and> t = EndTime (Deposit dd))"
      using M by blast+
    show "(k, t) \<in> set (effectiveDeposits d parentDeposits)"
    proof (cases "k \<in> fst ` set (modifiedDeposits d)")
      case False
      then have "(k, t) \<in> set parentDeposits" using cases by force
      then show ?thesis using E False by blast
    next
      case True
      then obtain dd where dd: "(k, dd) \<in> set (modifiedDeposits d)" by force
      have r: "\<not> removed dd" using nr R dd by blast
      have "t = EndTime (Deposit dd)"
      proof (cases "added dd")
        case True
        then have "k \<notin> fst ` set parentDeposits"
          using new dd unfolding addedAreNew_def by blast
        then have "(k, t) \<notin> set parentDeposits" by force
        then show ?thesis using cases one [OF dd] by blast
      next
        case False
        then have h: "(k, EndTime (Deposit dd)) \<in> set parentDeposits"
          using held dd r unfolding modifiedAreHeld_def by blast
        show ?thesis
        proof (cases "(k, t) \<in> set parentDeposits")
          case True
          then show ?thesis using h oneP by blast
        next
          case False
          then show ?thesis using cases one [OF dd] by blast
        qed
      qed
      then show ?thesis using E dd r by blast
    qed
  qed
  then show "x \<in> set (effectiveDeposits d parentDeposits) \<longleftrightarrow>
      x \<in> set (markedDeposits d parentDeposits)"
    by (simp add: x)
qed

lemma nextToUnlock_cong:
  assumes s: "set (candidates xs E) = set (candidates ys E)"
    and dx: "distinct (map fst (candidates xs E))"
    and dy: "distinct (map fst (candidates ys E))"
  shows "nextToUnlock MaxTime xs E = nextToUnlock MaxTime ys E"
proof -
  let ?x = "candidates xs E" and ?y = "candidates ys E"
  have "distinct ?x" "distinct ?y"
    using dx dy by (auto dest: distinct_map [THEN iffD1])
  then have m: "mset ?x = mset ?y"
    using s by (simp add: set_eq_iff_mset_eq_distinct)
  have e: "earliestEnd ?x = earliestEnd ?y"
    unfolding earliestEnd_def using s by simp
  have n: "?x = [] \<longleftrightarrow> ?y = []"
    using s by (metis set_empty)
  have "mset (map fst (filter (\<lambda>(k, t'). t' = t) ?x)) =
      mset (map fst (filter (\<lambda>(k, t'). t' = t) ?y))" for t
    using m by (metis mset_filter mset_map)
  then have a: "endingAt ?x t = endingAt ?y t" for t
    unfolding endingAt_def by (intro properties_for_sort) simp_all
  show ?thesis
    unfolding nextToUnlock_def using e n a by (simp add: Let_def)
qed

text \<open>
  The query in terms of the effective deposits: the parent resolves and answers for its
  deposits, the deposits the diff added have new IDs, \<open>ModifyDeposit\<close> was called for
  deposits of the parent only, and the lists are keyed by ID as the maps they stand for.
\<close>

lemma GetNextToUnlockDepositIDsAndTime_eq:
  assumes res: "stateVersions d (parentID d) = Some P"
    and par: "answersFor MaxTime P parentDeposits parentRemoved"
    and new: "addedAreNew d parentDeposits parentRemoved"
    and held: "modifiedAreHeld d parentDeposits"
    and keysP: "distinct (map fst parentDeposits)"
    and keysD: "distinct (map fst (modifiedDeposits d))"
  shows "GetNextToUnlockDepositIDsAndTime MaxTime d E =
     (nextToUnlock MaxTime (effectiveDeposits d parentDeposits) E,
      E \<union> removedIDs d \<union> parentRemoved)"
proof -
  have "set (candidates (effectiveDeposits d parentDeposits) E) =
      set (candidates (markedDeposits d parentDeposits) E)"
    unfolding candidates_def
    by (simp add: set_effective_marked [OF new held keysP keysD])
  then have "nextToUnlock MaxTime (effectiveDeposits d parentDeposits) E =
      nextToUnlock MaxTime (markedDeposits d parentDeposits) E"
    using distinct_keys_effective [OF keysP keysD] distinct_keys_marked [OF new keysP keysD]
    by (rule nextToUnlock_cong)
  then show ?thesis
    by (simp add: GetNextToUnlockDepositIDsAndTime_marked [OF res par new])
qed
lemma answersFor_stateOfDeposits:
  "answersFor MaxTime (stateOfDeposits MaxTime deposits) deposits {}"
  by (simp add: answersFor_def stateOfDeposits_def)

lemma earliestEnd_below:
  assumes "(k, t) \<in> set cands" and "t < MaxTime"
  shows "cands \<noteq> []" and "\<not> MaxTime \<le> earliestEnd cands"
  using assms earliestEnd_le [of k t cands] by auto

lemma set_endingAt:
  "set (endingAt cands t) = {k. (k, t) \<in> set cands}"
  unfolding endingAt_def by force

lemmas next_defs =
  GetNextToUnlockDepositIDsAndTime_def GetNextToUnlockDepositTime_def GetDeposit_def
  AddDeposit_def ModifyDeposit_def RemoveDeposit_def emptyDiff_def stateOfDeposits_def
  emptyState_def nextToUnlock_def candidates_def earliestEnd_def endingAt_def
  addRemoved_def earliestAdded_def addedAt_def EndTime_def depositFrom_def deposit0_def
  libMaxTime_def Let_def effectiveDeposits_def removedIDs_def

text \<open>
  The effective deposits are the deposits \<open>GetDeposit\<close> reads through the diff, with
  their end times.
\<close>

lemma effectiveDeposits_GetDeposit:
  assumes res: "stateVersions d (parentID d) = Some P"
    and par: "\<And>k t. (\<exists>dep. State_GetDeposit P k = Inr dep \<and> EndTime dep = t) \<longleftrightarrow>
        (k, t) \<in> set parentDeposits"
    and keysD: "distinct (map fst (modifiedDeposits d))"
  shows "(\<exists>dep. GetDeposit d k = Inr dep \<and> EndTime dep = t) \<longleftrightarrow>
     (k, t) \<in> set (effectiveDeposits d parentDeposits)"
proof -
  have E: "(k, t) \<in> set (effectiveDeposits d parentDeposits) \<longleftrightarrow>
      ((k, t) \<in> set parentDeposits \<and> k \<notin> fst ` set (modifiedDeposits d)) \<or>
      (\<exists>dd. (k, dd) \<in> set (modifiedDeposits d) \<and> \<not> removed dd \<and> t = EndTime (Deposit dd))"
    unfolding effectiveDeposits_def by force
  show ?thesis
  proof (cases "map_of (modifiedDeposits d) k")
    case None
    then have n: "k \<notin> fst ` set (modifiedDeposits d)"
      by (simp add: map_of_eq_None_iff)
    then have "\<And>dd. (k, dd) \<notin> set (modifiedDeposits d)"
      by force
    then show ?thesis
      unfolding E using n by (simp add: GetDeposit_def None res par)
  next
    case (Some dd)
    then have in_d: "(k, dd) \<in> set (modifiedDeposits d)"
      by (rule map_of_SomeD)
    then have k: "k \<in> fst ` set (modifiedDeposits d)"
      by force
    have one: "dd' = dd" if "(k, dd') \<in> set (modifiedDeposits d)" for dd'
      using that in_d keysD by (meson eq_key_imp_eq_value)
    have "(\<exists>dd'. (k, dd') \<in> set (modifiedDeposits d) \<and> \<not> removed dd' \<and>
        t = EndTime (Deposit dd')) \<longleftrightarrow> \<not> removed dd \<and> t = EndTime (Deposit dd)"
      using in_d one by blast
    then show ?thesis
      unfolding E using k by (auto simp add: GetDeposit_def Some)
  qed
qed

text \<open>
  The state of the listed deposits is such a parent, for deposits that end at times a
  \<open>uint64\<close> holds.
\<close>

lemma stateOfDeposits_GetDeposit:
  assumes keys: "distinct (map fst deposits)"
    and range: "\<forall>(k, t) \<in> set deposits. 0 \<le> t \<and> t < 2 ^ 64"
  shows "(\<exists>dep. State_GetDeposit (stateOfDeposits MaxTime deposits) k = Inr dep \<and>
            EndTime dep = t) \<longleftrightarrow> (k, t) \<in> set deposits"
proof (cases "map_of deposits k")
  case None
  then have "k \<notin> fst ` set deposits"
    by (simp add: map_of_eq_None_iff)
  then have "(k, t) \<notin> set deposits"
    by force
  then show ?thesis
    by (simp add: stateOfDeposits_def None)
next
  case (Some t')
  then have in_d: "(k, t') \<in> set deposits"
    by (rule map_of_SomeD)
  then have r: "0 \<le> t'" "t' < 2 ^ 64"
    using range by auto
  have e: "EndTime (depositFrom (word_of_int t')) = t'"
    using r by (simp add: EndTime_def depositFrom_def deposit0_def uint_word_of_int)
  have "(k, t) \<in> set deposits \<longleftrightarrow> t = t'"
    using in_d keys by (meson eq_key_imp_eq_value)
  then show ?thesis
    by (auto simp add: stateOfDeposits_def Some e)
qed

text \<open>
  Claim C3 fails for a deposit that a diff added and then modified.
  The parent holds deposit 1, ending at 1000. The diff adds deposit 2, ending at 900, and
  the query answers deposit 2 at 900, as scenario S6 has it. \<open>ModifyDeposit\<close> for
  deposit 2 on the same diff then stores an entry without the mark \<open>added\<close>:
  \<open>GetDeposit\<close> still reads deposit 2 through the diff, ending at 900, and it is neither
  removed nor excluded, but the loops of the query pass it over, and both queries answer
  with deposit 1 and the time 1000.
\<close>

theorem added_then_modified_not_next_to_unlock:
  "fst (GetNextToUnlockDepositIDsAndTime libMaxTime diffS6 {}) = ([2], 900, None) \<and>
   GetDeposit addedThenModifiedDiff 2 =
     Inr ((depositFrom 900)\<lparr>ClaimedRewardAmount := 1\<rparr>) \<and>
   EndTime ((depositFrom 900)\<lparr>ClaimedRewardAmount := 1\<rparr>) = 900 \<and>
   removedIDs addedThenModifiedDiff = {} \<and>
   effectiveDeposits addedThenModifiedDiff [(1, 1000)] = [(1, 1000), (2, 900)] \<and>
   fst (GetNextToUnlockDepositIDsAndTime libMaxTime addedThenModifiedDiff {})
     = ([1], 1000, None) \<and>
   fst (GetNextToUnlockDepositTime libMaxTime addedThenModifiedDiff {}) = (1000, None)"
proof -
  note defs = next_defs addedThenModifiedDiff_def diffS6_def versionsS6_def
  have 1: "fst (GetNextToUnlockDepositIDsAndTime libMaxTime diffS6 {}) = ([2], 900, None)"
    by (simp add: defs)
  have 2: "GetDeposit addedThenModifiedDiff 2 =
      Inr ((depositFrom 900)\<lparr>ClaimedRewardAmount := 1\<rparr>)"
    by (simp add: defs)
  have 3: "EndTime ((depositFrom 900)\<lparr>ClaimedRewardAmount := 1\<rparr>) = 900"
    by (simp add: defs)
  have 4: "removedIDs addedThenModifiedDiff = {}"
    by (simp add: defs)
  have 5: "effectiveDeposits addedThenModifiedDiff [(1, 1000)] = [(1, 1000), (2, 900)]"
    by (simp add: defs)
  have 6: "fst (GetNextToUnlockDepositIDsAndTime libMaxTime addedThenModifiedDiff {})
      = ([1], 1000, None)"
    by (simp add: defs)
  have 7: "fst (GetNextToUnlockDepositTime libMaxTime addedThenModifiedDiff {})
      = (1000, None)"
    by (simp add: defs)
  from 1 2 3 4 5 6 7 show ?thesis
    by blast
qed

text \<open>
  Where \<open>ModifyDeposit\<close> was called for deposits of the parent only, the query answers
  as specified: let the diff's parent resolve and answer the query for its deposits, and
  let the deposits the diff added have new IDs. The candidates are the effective deposits
  that are not excluded. Whenever a candidate ends before \<open>MaxTime\<close>,
  \<open>GetNextToUnlockDepositIDsAndTime\<close> returns no error, the earliest end time of a
  candidate, and the IDs of all candidates that end then, each once and in ascending
  order.
\<close>

lemma next_to_unlock_earliest_candidates:
  assumes res: "stateVersions d (parentID d) = Some P"
    and par: "answersFor MaxTime P parentDeposits parentRemoved"
    and new: "addedAreNew d parentDeposits parentRemoved"
    and held: "modifiedAreHeld d parentDeposits"
    and keysP: "distinct (map fst parentDeposits)"
    and keysD: "distinct (map fst (modifiedDeposits d))"
    and cands: "cands = candidates (effectiveDeposits d parentDeposits) excluded"
    and some: "\<exists>(k, t) \<in> set cands. t < MaxTime"
  shows "\<exists>ids. fst (GetNextToUnlockDepositIDsAndTime MaxTime d excluded) =
             (ids, Min (snd ` set cands), None) \<and>
           set ids = {k. (k, Min (snd ` set cands)) \<in> set cands} \<and>
           sorted ids \<and> distinct ids"
proof -
  from some obtain k t where kt: "(k, t) \<in> set cands" "t < MaxTime" by auto
  note ne = earliestEnd_below [OF kt]
  have m: "Min (snd ` set cands) = earliestEnd cands"
    by (simp add: earliestEnd_def)
  have eq: "fst (GetNextToUnlockDepositIDsAndTime MaxTime d excluded) =
      (endingAt cands (earliestEnd cands), earliestEnd cands, None)"
    using ne
    by (simp add: GetNextToUnlockDepositIDsAndTime_eq [OF res par new held keysP keysD]
        nextToUnlock_def cands [symmetric] Let_def)
  have "distinct (map fst cands)"
    unfolding cands by (rule distinct_keys_effective [OF keysP keysD])
  then have "distinct (map fst (filter (\<lambda>(k, t'). t' = earliestEnd cands) cands))"
    by (rule distinct_map_filter)
  then have d: "distinct (endingAt cands (earliestEnd cands))"
    by (simp add: endingAt_def)
  have s: "sorted (endingAt cands (earliestEnd cands))"
    by (simp add: endingAt_def)
  show ?thesis
    using eq d s by (simp add: m set_endingAt)
qed

text \<open>
  Scenario S6, second half: in a diff that removes deposit 2 again the answer is deposit 1
  at 1000.
\<close>

lemma next_to_unlock_S6_removed:
  "fst (GetNextToUnlockDepositIDsAndTime libMaxTime diffS6removed {}) = ([1], 1000, None)"
  by (simp add: next_defs diffS6removed_def diffS6_def versionsS6_def)

text \<open>
  Claim C6, as stated, fails where a deposit ends at \<open>MaxTime\<close>, the value the code keeps
  for "no deposit": over a parent without deposits the diff adds deposit 7 ending at
  \<open>MaxTime\<close>; nothing is excluded, and the answer is \<open>ErrNotFound\<close>.
\<close>

theorem not_found_with_deposit_at_MaxTime:
  "\<not> (snd (snd (fst (GetNextToUnlockDepositIDsAndTime libMaxTime sentinelDiff {})))
        = Some ErrNotFound
      \<longleftrightarrow> fst ` set (effectiveDeposits sentinelDiff []) \<subseteq> {})"
proof -
  note defs = next_defs sentinelDiff_def versionsNoDeposits_def
  have 1: "snd (snd (fst (GetNextToUnlockDepositIDsAndTime libMaxTime sentinelDiff {})))
      = Some ErrNotFound"
    by (simp add: defs)
  have 2: "effectiveDeposits sentinelDiff [] = [(7, libMaxTime)]"
    by (simp add: defs)
  show ?thesis
    unfolding 1 2 by simp
qed

text \<open>
  Claim C6, amended. Let the diff's parent resolve and answer the query for its deposits,
  let the deposits the diff added have new IDs, and let \<open>ModifyDeposit\<close> have been
  called for deposits of the parent only. Then \<open>GetNextToUnlockDepositIDsAndTime\<close>
  returns \<open>ErrNotFound\<close> if and only if every effective deposit is excluded or does not
  end before \<open>MaxTime\<close>.
\<close>

theorem next_to_unlock_not_found_iff:
  assumes res: "stateVersions d (parentID d) = Some P"
    and par: "answersFor MaxTime P parentDeposits parentRemoved"
    and new: "addedAreNew d parentDeposits parentRemoved"
    and held: "modifiedAreHeld d parentDeposits"
    and keysP: "distinct (map fst parentDeposits)"
    and keysD: "distinct (map fst (modifiedDeposits d))"
  shows "snd (snd (fst (GetNextToUnlockDepositIDsAndTime MaxTime d excluded)))
           = Some ErrNotFound
         \<longleftrightarrow> (\<forall>(k, t) \<in> set (effectiveDeposits d parentDeposits).
                k \<in> excluded \<or> MaxTime \<le> t)"
proof -
  let ?c = "candidates (effectiveDeposits d parentDeposits) excluded"
  have 1: "snd (snd (fst (GetNextToUnlockDepositIDsAndTime MaxTime d excluded)))
      = Some ErrNotFound \<longleftrightarrow> ?c = [] \<or> MaxTime \<le> earliestEnd ?c"
    by (simp add: GetNextToUnlockDepositIDsAndTime_eq [OF res par new held keysP keysD]
        nextToUnlock_def Let_def)
  have 2: "?c = [] \<or> MaxTime \<le> earliestEnd ?c \<longleftrightarrow> (\<forall>(k, t) \<in> set ?c. MaxTime \<le> t)"
  proof (cases "?c = []")
    case True
    then show ?thesis by simp
  next
    case False
    then have "MaxTime \<le> earliestEnd ?c \<longleftrightarrow> (\<forall>t \<in> set (map snd ?c). MaxTime \<le> t)"
      unfolding earliestEnd_def by (intro Min_ge_iff) auto
    then show ?thesis using False by auto
  qed
  have 3: "(\<forall>(k, t) \<in> set ?c. MaxTime \<le> t) \<longleftrightarrow>
      (\<forall>(k, t) \<in> set (effectiveDeposits d parentDeposits). k \<in> excluded \<or> MaxTime \<le> t)"
    unfolding candidates_def by auto
  from 1 2 3 show ?thesis by simp
qed

text \<open>
  The instances: the diff of scenario S6 after a claim of rewards of the parent's deposit
  1. With deposit 2 excluded the answer is deposit 1, not \<open>ErrNotFound\<close>; with both
  deposits excluded it is \<open>ErrNotFound\<close>.
\<close>

theorem next_to_unlock_not_found_iff_witness:
  "stateVersions diffS6claimed (parentID diffS6claimed)
     = Some (stateOfDeposits libMaxTime [(1, 1000)]) \<and>
   answersFor libMaxTime (stateOfDeposits libMaxTime [(1, 1000)]) [(1, 1000)] {} \<and>
   addedAreNew diffS6claimed [(1, 1000)] {} \<and>
   modifiedAreHeld diffS6claimed [(1, 1000)] \<and>
   distinct (map fst [(1 :: ID, 1000 :: Time)]) \<and>
   distinct (map fst (modifiedDeposits diffS6claimed)) \<and>
   effectiveDeposits diffS6claimed [(1, 1000)] = [(2, 900), (1, 1000)] \<and>
   fst (GetNextToUnlockDepositIDsAndTime libMaxTime diffS6claimed {2}) = ([1], 1000, None) \<and>
   snd (snd (fst (GetNextToUnlockDepositIDsAndTime libMaxTime diffS6claimed {1, 2})))
     = Some ErrNotFound"
proof -
  note defs = next_defs diffS6claimed_def diffS6_def versionsS6_def
  have res: "stateVersions diffS6claimed (parentID diffS6claimed) =
      Some (stateOfDeposits libMaxTime [(1, 1000)])"
    by (simp add: diffS6claimed_def ModifyDeposit_def diffS6_def AddDeposit_def
        emptyDiff_def versionsS6_def)
  note par = answersFor_stateOfDeposits [of libMaxTime "[(1, 1000)]"]
  have new: "addedAreNew diffS6claimed [(1, 1000)] {}"
    by (simp add: addedAreNew_def diffS6claimed_def ModifyDeposit_def diffS6_def
        AddDeposit_def emptyDiff_def)
  have held: "modifiedAreHeld diffS6claimed [(1, 1000)]"
    by (simp add: modifiedAreHeld_def defs)
  have keysP: "distinct (map fst [(1 :: ID, 1000 :: Time)])"
    by simp
  have keysD: "distinct (map fst (modifiedDeposits diffS6claimed))"
    by (simp add: diffS6claimed_def ModifyDeposit_def diffS6_def AddDeposit_def
        emptyDiff_def)
  have e: "effectiveDeposits diffS6claimed [(1, 1000)] = [(2, 900), (1, 1000)]"
    by (simp add: defs)
  note t = next_to_unlock_not_found_iff [OF res par new held keysP keysD, unfolded e]
  have b: "snd (snd (fst (GetNextToUnlockDepositIDsAndTime libMaxTime diffS6claimed {1, 2})))
      = Some ErrNotFound"
    using t [of "{1, 2}"] by simp
  have a: "fst (GetNextToUnlockDepositIDsAndTime libMaxTime diffS6claimed {2})
      = ([1], 1000, None)"
    by (simp add: defs)
  from res par new held keysP keysD e a b show ?thesis
    by blast
qed

text \<open>
  Claim C10, as stated, fails when the diff's parent does not resolve: both functions
  return \<open>ErrMissingParentState\<close> before the loop that adds the removed deposits, and the
  caller's set is as it was. The diff removed deposit 5, and 5 is not in the set.
\<close>

theorem removed_not_added_without_parent:
  "removedIDs orphanDiff = {5} \<and>
   \<not> removedIDs orphanDiff \<subseteq> snd (GetNextToUnlockDepositTime libMaxTime orphanDiff {}) \<and>
   \<not> removedIDs orphanDiff \<subseteq> snd (GetNextToUnlockDepositIDsAndTime libMaxTime orphanDiff {}) \<and>
   GetNextToUnlockDepositTime libMaxTime orphanDiff {} =
     ((zeroTime, Some (ErrMissingParentState 0)), {}) \<and>
   GetNextToUnlockDepositIDsAndTime libMaxTime orphanDiff {} =
     (([], zeroTime, Some (ErrMissingParentState 0)), {})"
  by (simp add: GetNextToUnlockDepositTime_def GetNextToUnlockDepositIDsAndTime_def
      removedIDs_def orphanDiff_def RemoveDeposit_def emptyDiff_def)

text \<open>
  Claim C10, amended. When the diff's parent resolves, both functions leave in the
  caller's set what it held and every deposit ID the diff marks removed. When the parent
  does not resolve, both return \<open>ErrMissingParentState\<close> and the caller's set is as it
  was.
\<close>

theorem removed_added_to_callers_set:
  "(stateVersions d (parentID d) \<noteq> None \<longrightarrow>
      removedDepositIDs \<union> removedIDs d
        \<subseteq> snd (GetNextToUnlockDepositTime MaxTime d removedDepositIDs) \<and>
      removedDepositIDs \<union> removedIDs d
        \<subseteq> snd (GetNextToUnlockDepositIDsAndTime MaxTime d removedDepositIDs)) \<and>
   (stateVersions d (parentID d) = None \<longrightarrow>
      GetNextToUnlockDepositTime MaxTime d removedDepositIDs =
        ((zeroTime, Some (ErrMissingParentState (parentID d))), removedDepositIDs) \<and>
      GetNextToUnlockDepositIDsAndTime MaxTime d removedDepositIDs =
        (([], zeroTime, Some (ErrMissingParentState (parentID d))), removedDepositIDs))"
proof (cases "stateVersions d (parentID d)")
  case None
  then show ?thesis
    by (simp add: GetNextToUnlockDepositTime_def GetNextToUnlockDepositIDsAndTime_def)
next
  case (Some P)
  let ?E = "removedDepositIDs \<union> removedIDs d"
  have 1: "?E \<subseteq> snd (GetNextToUnlockDepositTime MaxTime d removedDepositIDs)"
    unfolding GetNextToUnlockDepositTime_def
    by (auto simp add: Some addRemoved_removedIDs Let_def split: prod.splits)
  have 2: "?E \<subseteq> snd (GetNextToUnlockDepositIDsAndTime MaxTime d removedDepositIDs)"
    unfolding GetNextToUnlockDepositIDsAndTime_def
    by (auto simp add: Some addRemoved_removedIDs Let_def split: prod.splits)
  from 1 2 Some show ?thesis
    by simp
qed

text \<open>
  The instances: the second diff of scenario S6 removed deposit 2; called with the set
  \<open>{9}\<close>, both functions leave \<open>{9, 2}\<close>. The diff whose parent is no longer
  registered removed deposit 5; called with the set \<open>{9}\<close>, both functions leave \<open>{9}\<close>.
\<close>

theorem removed_added_to_callers_set_witness:
  "stateVersions diffS6removed (parentID diffS6removed)
     = Some (stateOfDeposits libMaxTime [(1, 1000)]) \<and>
   removedIDs diffS6removed = {2} \<and>
   {9} \<union> {2} \<subseteq> snd (GetNextToUnlockDepositTime libMaxTime diffS6removed {9}) \<and>
   {9} \<union> {2} \<subseteq> snd (GetNextToUnlockDepositIDsAndTime libMaxTime diffS6removed {9}) \<and>
   snd (GetNextToUnlockDepositTime libMaxTime diffS6removed {9}) = {9, 2} \<and>
   snd (GetNextToUnlockDepositIDsAndTime libMaxTime diffS6removed {9}) = {9, 2} \<and>
   stateVersions orphanDiff (parentID orphanDiff) = None \<and>
   removedIDs orphanDiff = {5} \<and>
   GetNextToUnlockDepositTime libMaxTime orphanDiff {9} =
     ((zeroTime, Some (ErrMissingParentState 0)), {9}) \<and>
   GetNextToUnlockDepositIDsAndTime libMaxTime orphanDiff {9} =
     (([], zeroTime, Some (ErrMissingParentState 0)), {9})"
proof -
  have res: "stateVersions diffS6removed (parentID diffS6removed) =
      Some (stateOfDeposits libMaxTime [(1, 1000)])"
    by (simp add: diffS6removed_def RemoveDeposit_def diffS6_def AddDeposit_def
        emptyDiff_def versionsS6_def)
  have r: "removedIDs diffS6removed = {2}"
    by (simp add: removedIDs_def diffS6removed_def RemoveDeposit_def diffS6_def
        AddDeposit_def emptyDiff_def)
  note t = removed_added_to_callers_set [of diffS6removed "{9}" libMaxTime, unfolded r]
  have s1: "{9} \<union> {2} \<subseteq> snd (GetNextToUnlockDepositTime libMaxTime diffS6removed {9})"
    using t res by simp
  have s2: "{9} \<union> {2} \<subseteq> snd (GetNextToUnlockDepositIDsAndTime libMaxTime diffS6removed {9})"
    using t res by simp
  have e1: "snd (GetNextToUnlockDepositTime libMaxTime diffS6removed {9}) = {9, 2}"
    by (auto simp add: next_defs diffS6removed_def diffS6_def versionsS6_def)
  have e2: "snd (GetNextToUnlockDepositIDsAndTime libMaxTime diffS6removed {9}) = {9, 2}"
    by (auto simp add: next_defs diffS6removed_def diffS6_def versionsS6_def)
  have o: "stateVersions orphanDiff (parentID orphanDiff) = None"
    by (simp add: orphanDiff_def RemoveDeposit_def emptyDiff_def)
  have p: "parentID orphanDiff = 0"
    by (simp add: orphanDiff_def RemoveDeposit_def emptyDiff_def)
  have ro: "removedIDs orphanDiff = {5}"
    by (simp add: removedIDs_def orphanDiff_def RemoveDeposit_def emptyDiff_def)
  note u = removed_added_to_callers_set [of orphanDiff "{9}" libMaxTime, unfolded p]
  have o1: "GetNextToUnlockDepositTime libMaxTime orphanDiff {9} =
      ((zeroTime, Some (ErrMissingParentState 0)), {9})"
    using u o p by simp
  have o2: "GetNextToUnlockDepositIDsAndTime libMaxTime orphanDiff {9} =
      (([], zeroTime, Some (ErrMissingParentState 0)), {9})"
    using u o p by simp
  from res r s1 s2 e1 e2 o ro o1 o2 show ?thesis
    by blast
qed

text \<open>
  The conditions on the parent are kept by the diff itself: a diff over a parent that
  answers for its deposits answers for its own effective deposits, so diffs can be
  stacked.
\<close>

lemma answersFor_stateOfDiff:
  assumes res: "stateVersions d (parentID d) = Some P"
    and par: "answersFor MaxTime P parentDeposits parentRemoved"
    and new: "addedAreNew d parentDeposits parentRemoved"
    and held: "modifiedAreHeld d parentDeposits"
    and keysP: "distinct (map fst parentDeposits)"
    and keysD: "distinct (map fst (modifiedDeposits d))"
  shows "answersFor MaxTime (stateOfDiff MaxTime d) (effectiveDeposits d parentDeposits)
           (removedIDs d \<union> parentRemoved)"
  unfolding answersFor_def
  by (simp add: stateOfDiff_def
      GetNextToUnlockDepositIDsAndTime_eq [OF res par new held keysP keysD] Un_assoc)

section \<open>Locked UTXOs\<close>

lemma removeOrUpdate_eq:
  assumes wf: "\<forall>(k, m) \<in> set mods. utxoID m = k"
  shows "removeOrUpdate mods ret remaining =
     (List.map_filter (\<lambda>u. case map_of mods (InputID u) of None \<Rightarrow> Some u | Some m \<Rightarrow> utxo m) ret,
      remaining - (InputID ` set ret \<inter> fst ` set mods))"
proof (induction ret)
  case Nil
  show ?case by (simp add: List.map_filter_def)
next
  case (Cons u us)
  have k: "utxoID m = InputID u" if "map_of mods (InputID u) = Some m" for m
    using wf map_of_SomeD [OF that] by auto
  have n: "InputID u \<notin> fst ` set mods" if "map_of mods (InputID u) = None"
    using that by (simp add: map_of_eq_None_iff)
  have i: "InputID u \<in> fst ` set mods" if "map_of mods (InputID u) = Some m" for m
    using map_of_SomeD [OF that] by force
  show ?case
    using Cons.IH
    by (auto simp add: List.map_filter_def k n i split: option.splits)
qed

lemma matchingOf_Cons:
  "matchingOf Match lockState txIDs want ((k, m) # es) =
     (case utxo m of
        None \<Rightarrow> []
      | Some u \<Rightarrow> if want k \<and> lockedMatch Match lockState txIDs u then [u] else []) @
     matchingOf Match lockState txIDs want es"
  by (simp add: matchingOf_def List.map_filter_def split: option.splits)

lemma matchingOf_Nil [simp]:
  "matchingOf Match lockState txIDs want [] = []"
  by (simp add: matchingOf_def List.map_filter_def)

lemma matchingOf_cong:
  assumes "\<And>k m u. (k, m) \<in> set es \<Longrightarrow> utxo m = Some u \<Longrightarrow> want k = want' k"
  shows "matchingOf Match lockState txIDs want es = matchingOf Match lockState txIDs want' es"
  using assms
proof (induction es)
  case Nil
  show ?case by simp
next
  case (Cons e es)
  obtain k m where e: "e = (k, m)" by (cases e)
  have "want k = want' k" if "utxo m = Some u" for u
    using Cons.prems [of k m u] that by (simp add: e)
  moreover have "matchingOf Match lockState txIDs want es =
      matchingOf Match lockState txIDs want' es"
    using Cons.prems by (intro Cons.IH) auto
  ultimately show ?case by (simp add: e matchingOf_Cons split: option.splits)
qed

lemma appendNew_fold:
  assumes keys: "distinct (map fst mods)" and sub: "set es \<subseteq> set mods"
  shows "fold (\<lambda>k ret.
             case map_of mods k of
               None \<Rightarrow> ret
             | Some m \<Rightarrow>
                 (case utxo m of
                    None \<Rightarrow> ret
                  | Some u \<Rightarrow>
                      (case Out u of
                         LockedOut lockIDs amt owners \<Rightarrow>
                           if Match lockIDs lockState txIDs then ret @ [u] else ret
                       | TransferOutput amt owners \<Rightarrow> ret)))
       (filter (\<lambda>k. k \<in> remaining) (map fst es)) ret =
     ret @ matchingOf Match lockState txIDs (\<lambda>k. k \<in> remaining) es"
  using sub
proof (induction es arbitrary: ret)
  case Nil
  show ?case by simp
next
  case (Cons e es)
  obtain k m where e: "e = (k, m)" by (cases e)
  have "(k, m) \<in> set mods" using Cons.prems by (simp add: e)
  then have look: "map_of mods k = Some m"
    using keys by (simp add: map_of_is_SomeI)
  have sub': "set es \<subseteq> set mods" using Cons.prems by simp
  show ?case
    by (cases "Out (the (utxo m))")
       (simp_all add: e look Cons.IH [OF sub'] matchingOf_Cons lockedMatch_def
          split: option.splits Output.splits)
qed

lemma appendNew_eq:
  assumes "distinct (map fst mods)"
  shows "appendNew Match mods remaining txIDs lockState ret =
     ret @ matchingOf Match lockState txIDs (\<lambda>k. k \<in> remaining) mods"
  unfolding appendNew_def by (rule appendNew_fold [OF assms subset_refl])

text \<open>
  The two steps of \<open>LockedUTXOs\<close>, for a parent that resolves and answers with a list
  of UTXOs and entries of \<open>modifiedUTXOs\<close> stored under their own IDs.
\<close>

lemma LockedUTXOs_in_steps:
  assumes res: "stateVersions d (parentID d) = Some P"
    and ans: "State_LockedUTXOs P txIDs addresses lockState = Inr parentAnswer"
    and keys: "distinct (map fst (modifiedUTXOs d))"
    and own: "keyedByOwnID (modifiedUTXOs d)"
  shows "LockedUTXOs Match d txIDs addresses lockState =
     Inr (lockedUTXOsInSteps Match d parentAnswer txIDs lockState)"
proof -
  have ids: "\<forall>(k, m) \<in> set (modifiedUTXOs d). utxoID m = k"
    using own by (simp add: keyedByOwnID_def)
  let ?mods = "modifiedUTXOs d"
  let ?rem = "set (map fst ?mods) - (InputID ` set parentAnswer \<inter> fst ` set ?mods)"
  have m: "matchingOf Match lockState txIDs (\<lambda>k. k \<in> ?rem) ?mods =
      matchingOf Match lockState txIDs (\<lambda>k. k \<notin> InputID ` set parentAnswer) ?mods"
    by (rule matchingOf_cong) force
  show ?thesis
    unfolding LockedUTXOs_def lockedUTXOsInSteps_def
    by (simp only: res ans removeOrUpdate_eq [OF ids] appendNew_eq [OF keys] m
        option.case sum.case prod.case)
qed

lemma step1_removes:
  assumes keys: "distinct (map fst (modifiedUTXOs d))"
    and new: "introducedAreNew d parentAnswer"
  shows "List.map_filter
       (\<lambda>u. case map_of (modifiedUTXOs d) (InputID u) of
               None \<Rightarrow> Some u
             | Some m \<Rightarrow> utxo m) parentAnswer =
     filter (\<lambda>u. map_of (modifiedUTXOs d) (InputID u) = None) parentAnswer"
proof -
  have del: "utxo m = None"
    if "u \<in> set parentAnswer" and "map_of (modifiedUTXOs d) (InputID u) = Some m" for u m
  proof -
    have "(InputID u, m) \<in> set (modifiedUTXOs d)"
      using that(2) by (rule map_of_SomeD)
    then show ?thesis
      using new that(1) unfolding introducedAreNew_def by fastforce
  qed
  have "List.map_filter
       (\<lambda>u. case map_of (modifiedUTXOs d) (InputID u) of
               None \<Rightarrow> Some u
             | Some m \<Rightarrow> utxo m) us =
     filter (\<lambda>u. map_of (modifiedUTXOs d) (InputID u) = None) us"
    if "set us \<subseteq> set parentAnswer" for us
    using that
  proof (induction us)
    case Nil
    show ?case by (simp add: List.map_filter_def)
  next
    case (Cons u us)
    then have u: "u \<in> set parentAnswer" and us: "set us \<subseteq> set parentAnswer"
      by simp_all
    show ?case
      using Cons.IH [OF us] del [OF u]
      by (cases "map_of (modifiedUTXOs d) (InputID u)")
        (simp_all add: List.map_filter_def)
  qed
  then show ?thesis by simp
qed

text \<open>
  Claim C4. Let the parent resolve and answer with a list of UTXOs, let each entry of
  \<open>modifiedUTXOs\<close> be stored under its own ID, and let the UTXOs the diff introduces
  have IDs no UTXO of the parent's answer has. \<open>LockedUTXOs\<close> returns the parent's
  answer without every UTXO whose ID is in \<open>modifiedUTXOs\<close>, in the parent's order, and
  then the UTXOs the diff introduces that are locked outputs whose lock IDs match
  \<open>lockState\<close> and \<open>txIDs\<close>, in the order the map is visited.
\<close>

theorem locked_utxos_removed_and_appended:
  assumes res: "stateVersions d (parentID d) = Some P"
    and ans: "State_LockedUTXOs P txIDs addresses lockState = Inr parentAnswer"
    and keys: "distinct (map fst (modifiedUTXOs d))"
    and own: "keyedByOwnID (modifiedUTXOs d)"
    and new: "introducedAreNew d parentAnswer"
  shows "LockedUTXOs Match d txIDs addresses lockState =
     Inr (lockedUTXOsAsClaimed Match d parentAnswer txIDs lockState)"
proof -
  have m: "matchingOf Match lockState txIDs (\<lambda>k. k \<notin> InputID ` set parentAnswer)
        (modifiedUTXOs d) =
      matchingOf Match lockState txIDs (\<lambda>k. True) (modifiedUTXOs d)"
  proof (rule matchingOf_cong)
    fix k m u
    assume "(k, m) \<in> set (modifiedUTXOs d)" and "utxo m = Some u"
    then show "(k \<notin> InputID ` set parentAnswer) = True"
      using new unfolding introducedAreNew_def by fastforce
  qed
  show ?thesis
    unfolding LockedUTXOs_in_steps [OF res ans keys own] lockedUTXOsInSteps_def
      lockedUTXOsAsClaimed_def
    by (simp only: step1_removes [OF keys new] m)
qed

text \<open>
  The instance: asked for the UTXOs bonded by transaction 10, the parent answers with
  UTXOs 1 and 2. The diff deleted UTXO 2 and introduces UTXOs 3, 4 and 5, of which UTXO 3
  alone is bonded by transaction 10. The answer is UTXOs 1 and 3.
\<close>

theorem locked_utxos_removed_and_appended_witness:
  "stateVersions diffUTXOs (parentID diffUTXOs) = Some stateUTXOs \<and>
   State_LockedUTXOs stateUTXOs {10} {} StateBonded
     = Inr [bondedUTXO 1 10, bondedUTXO 2 10] \<and>
   distinct (map fst (modifiedUTXOs diffUTXOs)) \<and>
   keyedByOwnID (modifiedUTXOs diffUTXOs) \<and>
   introducedAreNew diffUTXOs [bondedUTXO 1 10, bondedUTXO 2 10] \<and>
   lockedUTXOsAsClaimed exampleMatch diffUTXOs [bondedUTXO 1 10, bondedUTXO 2 10] {10}
     StateBonded = [bondedUTXO 1 10, bondedUTXO 3 10] \<and>
   LockedUTXOs exampleMatch diffUTXOs {10} {} StateBonded
     = Inr [bondedUTXO 1 10, bondedUTXO 3 10]"
proof -
  have res: "stateVersions diffUTXOs (parentID diffUTXOs) = Some stateUTXOs"
    by (simp add: diffUTXOs_def emptyDiff_def)
  have ans: "State_LockedUTXOs stateUTXOs {10} {} StateBonded
      = Inr [bondedUTXO 1 10, bondedUTXO 2 10]"
    by (simp add: stateUTXOs_def emptyState_def)
  have keys: "distinct (map fst (modifiedUTXOs diffUTXOs))"
    by (simp add: diffUTXOs_def emptyDiff_def)
  have ids: "keyedByOwnID (modifiedUTXOs diffUTXOs)"
    by (simp add: keyedByOwnID_def diffUTXOs_def emptyDiff_def)
  have new: "introducedAreNew diffUTXOs [bondedUTXO 1 10, bondedUTXO 2 10]"
    by (simp add: introducedAreNew_def diffUTXOs_def emptyDiff_def bondedUTXO_def)
  have v: "lockedUTXOsAsClaimed exampleMatch diffUTXOs [bondedUTXO 1 10, bondedUTXO 2 10]
      {10} StateBonded = [bondedUTXO 1 10, bondedUTXO 3 10]"
    by (simp add: lockedUTXOsAsClaimed_def matchingOf_def lockedMatch_def
        List.map_filter_def diffUTXOs_def emptyDiff_def exampleMatch_def bondedUTXO_def
        plainUTXO_def)
  have t: "LockedUTXOs exampleMatch diffUTXOs {10} {} StateBonded
      = Inr [bondedUTXO 1 10, bondedUTXO 3 10]"
    using locked_utxos_removed_and_appended [OF res ans keys ids new, of exampleMatch] v
    by simp
  from res ans keys ids new v t show ?thesis
    by blast
qed

section \<open>Applying a diff twice\<close>

lemma forEach_append:
  "forEach body (xs @ ys) b = Option.bind (forEach body xs b) (forEach body ys)"
  by (induction xs arbitrary: b) (auto split: option.splits)

lemma forEach_map:
  "forEach body (map g xs) b = forEach (\<lambda>x. body (g x)) xs b"
  by (induction xs arbitrary: b) (auto split: option.splits)

lemma forEach_cong:
  "(\<And>x b. x \<in> set xs \<Longrightarrow> body x b = body' x b) \<Longrightarrow> forEach body xs b = forEach body' xs b"
  by (induction xs arbitrary: b) (auto split: option.splits)

lemma forEach_skip:
  "forEach (\<lambda>x. if P x then body x else Some) xs b = forEach body (filter P xs) b"
  by (induction xs arbitrary: b) (auto split: option.splits)

lemma forEach_concat:
  "forEach (\<lambda>xs. forEach body xs) xss b = forEach body (concat xss) b"
  by (induction xss arbitrary: b) (auto simp add: forEach_append split: option.splits)

lemma apply_sections:
  "forEach (\<lambda>(k, v). base_SetAddressStates k v) xs1 b =
     forEach baseCall_apply (map (\<lambda>(k, v). BaseSetAddressStates k v) xs1) b"
  "forEach (\<lambda>(k, depositOffer). base_SetDepositOffer depositOffer) xs2 b =
     forEach baseCall_apply (map (\<lambda>(k, depositOffer). BaseSetDepositOffer depositOffer) xs2) b"
  "forEach (\<lambda>(depositTxID, dd).
              if added dd then base_AddDeposit depositTxID (Deposit dd)
              else if removed dd then base_RemoveDeposit depositTxID (Deposit dd)
              else base_ModifyDeposit depositTxID (Deposit dd)) xs3 b =
     forEach baseCall_apply
       (map (\<lambda>(depositTxID, dd).
            if added dd then BaseAddDeposit depositTxID (Deposit dd)
            else if removed dd then BaseRemoveDeposit depositTxID (Deposit dd)
            else BaseModifyDeposit depositTxID (Deposit dd)) xs3) b"
  "forEach (\<lambda>(k, v). base_SetMultisigAlias v) xs4 b =
     forEach baseCall_apply (map (\<lambda>(k, v). BaseSetMultisigAlias v) xs4) b"
  "forEach (\<lambda>(fullKey, link).
              case fromShortLinkKey fullKey of (i, key) \<Rightarrow> base_SetShortIDLink i key link) xs5 b =
     forEach baseCall_apply
       (map (\<lambda>(fullKey, link).
            case fromShortLinkKey fullKey of (i, key) \<Rightarrow> BaseSetShortIDLink i key link) xs5) b"
  "forEach (\<lambda>(ownerID, claimable). base_SetClaimable ownerID claimable) xs6 b =
     forEach baseCall_apply (map (\<lambda>(ownerID, claimable). BaseSetClaimable ownerID claimable) xs6) b"
  unfolding forEach_map
  by (rule forEach_cong; simp split: prod.splits)+

lemma apply_validators_inner:
  "forEach (\<lambda>(nodeID, validatorDiff).
               if validatorModified validatorDiff
               then (if validatorDeleted validatorDiff
                     then base_DeleteDeferredValidator (validator validatorDiff)
                     else base_PutDeferredValidator (validator validatorDiff))
               else Some) vds b =
   forEach baseCall_apply
     (map (\<lambda>(nodeID, validatorDiff).
             if validatorDeleted validatorDiff
             then BaseDeleteDeferredValidator (validator validatorDiff)
             else BasePutDeferredValidator (validator validatorDiff))
        (filter (\<lambda>(nodeID, validatorDiff). validatorModified validatorDiff) vds)) b"
proof -
  have "forEach (\<lambda>(nodeID, validatorDiff).
               if validatorModified validatorDiff
               then (if validatorDeleted validatorDiff
                     then base_DeleteDeferredValidator (validator validatorDiff)
                     else base_PutDeferredValidator (validator validatorDiff))
               else Some) vds b =
    forEach (\<lambda>x. if (\<lambda>(nodeID, validatorDiff). validatorModified validatorDiff) x
                 then baseCall_apply (case x of (nodeID, validatorDiff) \<Rightarrow>
                        if validatorDeleted validatorDiff
                        then BaseDeleteDeferredValidator (validator validatorDiff)
                        else BasePutDeferredValidator (validator validatorDiff))
                 else Some) vds b"
    by (rule forEach_cong) (simp split: prod.splits)
  then show ?thesis
    by (simp only: forEach_skip forEach_map)
qed

lemma apply_validators:
  "forEach (\<lambda>(subnetID, validatorDiffs).
              forEach (\<lambda>(nodeID, validatorDiff).
                         if validatorModified validatorDiff
                         then (if validatorDeleted validatorDiff
                               then base_DeleteDeferredValidator (validator validatorDiff)
                               else base_PutDeferredValidator (validator validatorDiff))
                         else Some)
                validatorDiffs) vss b =
   forEach baseCall_apply
     (concat (map (\<lambda>(subnetID, validatorDiffs).
                    map (\<lambda>(nodeID, validatorDiff).
                           if validatorDeleted validatorDiff
                           then BaseDeleteDeferredValidator (validator validatorDiff)
                           else BasePutDeferredValidator (validator validatorDiff))
                      (filter (\<lambda>(nodeID, validatorDiff). validatorModified validatorDiff)
                         validatorDiffs)) vss)) b"
proof -
  have "forEach (\<lambda>(subnetID, validatorDiffs).
              forEach (\<lambda>(nodeID, validatorDiff).
                         if validatorModified validatorDiff
                         then (if validatorDeleted validatorDiff
                               then base_DeleteDeferredValidator (validator validatorDiff)
                               else base_PutDeferredValidator (validator validatorDiff))
                         else Some)
                validatorDiffs) vss b =
    forEach (\<lambda>x. forEach baseCall_apply
       ((\<lambda>(subnetID, validatorDiffs).
                    map (\<lambda>(nodeID, validatorDiff).
                           if validatorDeleted validatorDiff
                           then BaseDeleteDeferredValidator (validator validatorDiff)
                           else BasePutDeferredValidator (validator validatorDiff))
                      (filter (\<lambda>(nodeID, validatorDiff). validatorModified validatorDiff)
                         validatorDiffs)) x)) vss b"
    by (rule forEach_cong) (simp add: apply_validators_inner split: prod.splits)
  also have "\<dots> = forEach (\<lambda>xs. forEach baseCall_apply xs)
      (map (\<lambda>(subnetID, validatorDiffs).
                    map (\<lambda>(nodeID, validatorDiff).
                           if validatorDeleted validatorDiff
                           then BaseDeleteDeferredValidator (validator validatorDiff)
                           else BasePutDeferredValidator (validator validatorDiff))
                      (filter (\<lambda>(nodeID, validatorDiff). validatorModified validatorDiff)
                         validatorDiffs)) vss) b"
    by (simp only: forEach_map)
  finally show ?thesis
    by (simp only: forEach_concat)
qed

lemma ApplyCaminoState_calls:
  "ApplyCaminoState d b = forEach baseCall_apply (callsOfApply d) b"
proof -
  have first: "(case modifiedNotDistributedValidatorReward d of
              None \<Rightarrow> Some b
            | Some reward \<Rightarrow> base_SetNotDistributedValidatorReward reward b) =
      forEach baseCall_apply
        (case modifiedNotDistributedValidatorReward d of
            None \<Rightarrow> []
          | Some reward \<Rightarrow> [BaseSetNotDistributedValidatorReward reward]) b"
    by (simp add: base_SetNotDistributedValidatorReward_def split: option.splits)
  show ?thesis
    unfolding ApplyCaminoState_def callsOfApply_def forEach_append first
      apply_sections apply_validators
    by (simp add: bind_assoc)
qed


lemmas base_defs = base_SetNotDistributedValidatorReward_def base_SetAddressStates_def
  base_SetDepositOffer_def base_AddDeposit_def base_ModifyDeposit_def base_RemoveDeposit_def
  base_SetMultisigAlias_def base_SetShortIDLink_def base_SetClaimable_def
  base_PutDeferredValidator_def base_DeleteDeferredValidator_def

lemma baseCall_apply_written:
  "baseCall_apply c b = (if refused c then None else Some (written c b))"
  by (cases c rule: refused.cases) (simp_all add: written_def base_defs)

lemma forEach_baseCalls:
  "forEach baseCall_apply cs b =
     (if \<exists>c \<in> set cs. refused c then None else Some (fold written cs b))"
  by (induction cs arbitrary: b) (simp_all add: baseCall_apply_written)

lemma fold_upd_touched:
  fixes kv :: "'c \<Rightarrow> ('k \<times> 'v) option"
  defines "g \<equiv> (\<lambda>c m. case kv c of None \<Rightarrow> m | Some (k, v) \<Rightarrow> m(k := v))"
  shows "fold g cs m x =
     (if \<exists>c \<in> set cs. \<exists>v. kv c = Some (x, v) then fold g cs m' x else m x)"
proof (induction cs rule: rev_induct)
  case Nil
  show ?case by simp
next
  case (snoc c cs)
  show ?case
  proof (cases "kv c")
    case None
    then show ?thesis using snoc.IH by (simp add: g_def)
  next
    case (Some kv')
    obtain k v where kv': "kv' = (k, v)" by (cases kv')
    show ?thesis using snoc.IH Some kv' by (auto simp add: g_def)
  qed
qed

lemma fold_upd_replay:
  fixes kv :: "'c \<Rightarrow> ('k \<times> 'v) option"
  defines "g \<equiv> (\<lambda>c m. case kv c of None \<Rightarrow> m | Some (k, v) \<Rightarrow> m(k := v))"
  shows "fold g cs (fold g cs m) = fold g cs m"
proof
  fix x
  show "fold g cs (fold g cs m) x = fold g cs m x"
    using fold_upd_touched [of kv cs "fold g cs m" x m, folded g_def]
      fold_upd_touched [of kv cs m x m, folded g_def]
    by (simp split: if_splits)
qed

lemma field_replay:
  fixes kv :: "'c \<Rightarrow> ('k \<times> 'v) option" and proj :: "'s \<Rightarrow> 'k \<Rightarrow> 'v"
  assumes step: "\<And>c b. proj (w c b) =
      (case kv c of None \<Rightarrow> proj b | Some (k, v) \<Rightarrow> (proj b)(k := v))"
  shows "proj (fold w cs (fold w cs b)) = proj (fold w cs b)"
proof -
  let ?g = "\<lambda>c m. case kv c of None \<Rightarrow> m | Some (k, v) \<Rightarrow> m(k := v)"
  have A: "proj (fold w cs b) = fold ?g cs (proj b)" for b
    by (induction cs arbitrary: b) (simp_all add: step)
  show ?thesis
    by (simp only: A fold_upd_replay)
qed

lemma written_fields:
  "base_AddressStates (written c b) =
     (case (case c of BaseSetAddressStates k v \<Rightarrow> Some (k, Some v) | _ \<Rightarrow> None) of
        None \<Rightarrow> base_AddressStates b | Some (k, v) \<Rightarrow> (base_AddressStates b)(k := v))"
  "base_DepositOffers (written c b) =
     (case (case c of BaseSetDepositOffer (Some x) \<Rightarrow> Some (offer_ID x, Some x)
                    | _ \<Rightarrow> None) of
        None \<Rightarrow> base_DepositOffers b | Some (k, v) \<Rightarrow> (base_DepositOffers b)(k := v))"
  "base_Deposits (written c b) =
     (case (case c of BaseAddDeposit k dep \<Rightarrow> Some (k, Some dep)
                    | BaseModifyDeposit k dep \<Rightarrow> Some (k, Some dep)
                    | BaseRemoveDeposit k dep \<Rightarrow> Some (k, None)
                    | _ \<Rightarrow> None) of
        None \<Rightarrow> base_Deposits b | Some (k, v) \<Rightarrow> (base_Deposits b)(k := v))"
  "base_MultisigAliases (written c b) =
     (case (case c of BaseSetMultisigAlias (Some x) \<Rightarrow> Some (alias_ID x, Some x)
                    | _ \<Rightarrow> None) of
        None \<Rightarrow> base_MultisigAliases b
      | Some (k, v) \<Rightarrow> (base_MultisigAliases b)(k := v))"
  "base_ShortLinks (written c b) =
     (case (case c of BaseSetShortIDLink i key link \<Rightarrow> Some ((i, key), link)
                    | _ \<Rightarrow> None) of
        None \<Rightarrow> base_ShortLinks b | Some (k, v) \<Rightarrow> (base_ShortLinks b)(k := v))"
  "base_Claimables (written c b) =
     (case (case c of BaseSetClaimable k claimable \<Rightarrow> Some (k, claimable)
                    | _ \<Rightarrow> None) of
        None \<Rightarrow> base_Claimables b | Some (k, v) \<Rightarrow> (base_Claimables b)(k := v))"
  "base_DeferredValidators (written c b) =
     (case (case c of
              BasePutDeferredValidator (Some s) \<Rightarrow>
                Some ((SubnetID s, staker_NodeID s), Some s)
            | BaseDeleteDeferredValidator (Some s) \<Rightarrow>
                Some ((SubnetID s, staker_NodeID s), None)
            | _ \<Rightarrow> None) of
        None \<Rightarrow> base_DeferredValidators b
      | Some (k, v) \<Rightarrow> (base_DeferredValidators b)(k := v))"
  "(\<lambda>u :: unit. base_NotDistributedValidatorReward (written c b)) =
     (case (case c of BaseSetNotDistributedValidatorReward reward \<Rightarrow> Some ((), reward)
                    | _ \<Rightarrow> None) of
        None \<Rightarrow> (\<lambda>u. base_NotDistributedValidatorReward b)
      | Some (k, v) \<Rightarrow> (\<lambda>u. base_NotDistributedValidatorReward b)(k := v))"
  by (cases c; auto simp add: written_def base_defs split: option.splits)+

lemma written_replay:
  "fold written cs (fold written cs b) = fold written cs b"
proof (rule BaseState.equality)
  show "base_AddressStates (fold written cs (fold written cs b)) =
      base_AddressStates (fold written cs b)"
    by (rule field_replay [where proj = base_AddressStates, OF written_fields(1)])
  show "base_DepositOffers (fold written cs (fold written cs b)) =
      base_DepositOffers (fold written cs b)"
    by (rule field_replay [where proj = base_DepositOffers, OF written_fields(2)])
  show "base_Deposits (fold written cs (fold written cs b)) =
      base_Deposits (fold written cs b)"
    by (rule field_replay [where proj = base_Deposits, OF written_fields(3)])
  show "base_MultisigAliases (fold written cs (fold written cs b)) =
      base_MultisigAliases (fold written cs b)"
    by (rule field_replay [where proj = base_MultisigAliases, OF written_fields(4)])
  show "base_ShortLinks (fold written cs (fold written cs b)) =
      base_ShortLinks (fold written cs b)"
    by (rule field_replay [where proj = base_ShortLinks, OF written_fields(5)])
  show "base_Claimables (fold written cs (fold written cs b)) =
      base_Claimables (fold written cs b)"
    by (rule field_replay [where proj = base_Claimables, OF written_fields(6)])
  show "base_DeferredValidators (fold written cs (fold written cs b)) =
      base_DeferredValidators (fold written cs b)"
    by (rule field_replay [where proj = base_DeferredValidators, OF written_fields(7)])
  have "(\<lambda>u :: unit. base_NotDistributedValidatorReward (fold written cs (fold written cs b))) =
      (\<lambda>u. base_NotDistributedValidatorReward (fold written cs b))"
    by (rule field_replay [where proj = "\<lambda>b u. base_NotDistributedValidatorReward b",
          OF written_fields(8)])
  then show "base_NotDistributedValidatorReward (fold written cs (fold written cs b)) =
      base_NotDistributedValidatorReward (fold written cs b)"
    by (rule fun_cong [where x = "()"])
qed simp

text \<open>
  Claim C1. Running \<open>ApplyCaminoState\<close> a second time, on the base state the first run
  left, gives what the first run gave: the same base state, or no return where the first
  run did not return.
\<close>

theorem apply_twice:
  "Option.bind (ApplyCaminoState d b) (ApplyCaminoState d) = ApplyCaminoState d b"
proof (cases "\<exists>c \<in> set (callsOfApply d). refused c")
  case True
  then have "ApplyCaminoState d b = None"
    by (simp add: ApplyCaminoState_calls forEach_baseCalls)
  then show ?thesis by simp
next
  case False
  then have once: "ApplyCaminoState d b' = Some (fold written (callsOfApply d) b')" for b'
    by (simp add: ApplyCaminoState_calls forEach_baseCalls)
  have "Option.bind (ApplyCaminoState d b) (ApplyCaminoState d) =
      Some (fold written (callsOfApply d) (fold written (callsOfApply d) b))"
    by (simp add: once)
  also have "\<dots> = Some (fold written (callsOfApply d) b)"
    by (simp only: written_replay)
  also have "\<dots> = ApplyCaminoState d b"
    by (simp add: once)
  finally show ?thesis .
qed

text \<open>
  Scenario S5: the diff's claimable replaces the base's, and a second apply changes
  nothing.
\<close>

theorem apply_twice_witness:
  "ApplyCaminoState diffS5 baseS5 = Some (baseS5\<lparr>base_Claimables := [1 \<mapsto> claimable25]\<rparr>) \<and>
   ApplyCaminoState diffS5 (baseS5\<lparr>base_Claimables := [1 \<mapsto> claimable25]\<rparr>)
     = Some (baseS5\<lparr>base_Claimables := [1 \<mapsto> claimable25]\<rparr>)"
proof -
  have 1: "ApplyCaminoState diffS5 baseS5 =
      Some (baseS5\<lparr>base_Claimables := [1 \<mapsto> claimable25]\<rparr>)"
    by (simp add: ApplyCaminoState_def diffS5_def SetClaimable_def emptyDiff_def baseS5_def
        emptyBase_def base_SetClaimable_def)
  show ?thesis
    using 1 apply_twice [of diffS5 baseS5] by simp
qed


text \<open>
  The order in which a \<open>range\<close> loop visits a map is not fixed, and the second run may
  visit the entries in another order than the first. When no two calls of an apply write
  the same entry of the base state, as for a diff whose maps are keyed by the IDs the
  calls use, the order makes no difference: a diff that makes the same calls in another
  order leaves the same base state.
\<close>

lemma written_commute:
  assumes "slotOf x \<noteq> slotOf y"
  shows "written x (written y b) = written y (written x b)"
  using assms
  by (cases x; cases y)
     (auto simp add: written_def base_defs fun_upd_twist split: option.splits)

lemma apply_order_irrelevant:
  assumes same: "mset (callsOfApply d') = mset (callsOfApply d)"
    and apart: "\<And>x y. x \<in> set (callsOfApply d) \<Longrightarrow> y \<in> set (callsOfApply d) \<Longrightarrow>
                  x \<noteq> y \<Longrightarrow> slotOf x \<noteq> slotOf y"
  shows "ApplyCaminoState d' b = ApplyCaminoState d b"
proof -
  have comm: "written x \<circ> written y = written y \<circ> written x"
    if "x \<in> set (callsOfApply d)" and "y \<in> set (callsOfApply d)" for x y
  proof (cases "x = y")
    case True
    then show ?thesis by simp
  next
    case False
    then have "slotOf x \<noteq> slotOf y" using that by (rule apart [rotated 2])
    then show ?thesis by (auto simp add: fun_eq_iff written_commute)
  qed
  have f: "fold written (callsOfApply d) = fold written (callsOfApply d')"
    using comm same [symmetric] by (rule fold_multiset_equiv)
  have s: "set (callsOfApply d') = set (callsOfApply d)"
    using same by (rule mset_eq_setD)
  show ?thesis
    by (simp add: ApplyCaminoState_calls forEach_baseCalls s f)
qed

lemma apply_twice_any_order:
  assumes same: "mset (callsOfApply d') = mset (callsOfApply d)"
    and apart: "\<And>x y. x \<in> set (callsOfApply d) \<Longrightarrow> y \<in> set (callsOfApply d) \<Longrightarrow>
                  x \<noteq> y \<Longrightarrow> slotOf x \<noteq> slotOf y"
  shows "Option.bind (ApplyCaminoState d b) (ApplyCaminoState d') = ApplyCaminoState d b"
proof -
  have "ApplyCaminoState d' = ApplyCaminoState d"
    using apply_order_irrelevant [OF same apart] by (simp add: fun_eq_iff)
  moreover have "Option.bind (ApplyCaminoState d b) (ApplyCaminoState d) = ApplyCaminoState d b"
  proof (cases "\<exists>c \<in> set (callsOfApply d). refused c")
    case True
    then show ?thesis by (simp add: ApplyCaminoState_calls forEach_baseCalls)
  next
    case False
    then show ?thesis
      by (simp add: ApplyCaminoState_calls forEach_baseCalls written_replay)
  qed
  ultimately show ?thesis by simp
qed

section \<open>The credentials of a claim transaction\<close>

text \<open>
  Claim C5, as stated, fails: \<open>NewClaimTx\<close> collects the keys matched for all listed
  owners in one keychain and appends that keychain's keys as one credential. With two
  deposits and one claimable listed, the transaction carries the credential of its one
  input and one further credential, two in all, not one for the input and three for the
  owners.
\<close>

theorem claim_tx_credentials_not_per_owner:
  "NewClaimTx exampleBuilder [21, 22] [31] [5, 5, 5] None [21, 22, 31] None =
     (Some \<lparr>Unsigned =
               ClaimTx \<lparr>NetworkID = 0, BlockchainID = 0, Ins = [feeInput], Outs = []\<rparr>
                 [21, 22] [31] [5, 5, 5] None,
            Creds = [[21], [21, 22, 31]]\<rparr>, None) \<and>
   length [[21], [21, 22, 31 :: PrivateKey]]
     \<noteq> length [feeInput] + length [21, 22 :: ID] + length [31 :: ID]"
  by (simp add: exampleBuilder_def NewClaimTx_def NewSigned_def getDepositRewardsOwner_def
      ownerOf_def feeInput_def emptyBaseTx_def)

text \<open>
  Claim C5, amended. Every transaction \<open>NewClaimTx\<close> returns carries the credentials of
  the signer groups \<open>Lock\<close> returned for the inputs, and after them exactly one
  credential: the keys of the keychain to which the loops added the keys matched for each
  listed deposit's rewards owner and then for each listed claimable owner, in the order
  listed.
\<close>

theorem claim_tx_one_trailing_credential:
  assumes "NewClaimTx b depositTxIDs claimableOwnerIDs amountToClaim claimTo keys change
             = (Some tx, e)"
  shows "\<exists>ins outs signers kc1 claimableSignersKC.
           Lock b keys 0 (cfg_TxFee b) StateUnlocked None change 0 = Inr (ins, outs, signers) \<and>
           depositSigners b keys depositTxIDs [] = Inr kc1 \<and>
           claimableSigners b keys claimableOwnerIDs kc1 = Inr claimableSignersKC \<and>
           Unsigned tx =
             ClaimTx \<lparr>NetworkID = ctx_NetworkID b, BlockchainID = ctx_ChainID b,
                      Ins = ins, Outs = outs\<rparr>
               depositTxIDs claimableOwnerIDs amountToClaim claimTo \<and>
           Creds tx = signers @ [claimableSignersKC] \<and>
           length (Creds tx) = length signers + 1"
proof -
  from assms obtain caminoGenesis where
    cfg: "state_CaminoConfig b = Inr caminoGenesis" "LockModeBondDeposit caminoGenesis"
    by (auto simp add: NewClaimTx_def split: sum.splits if_splits)
  from assms cfg obtain ins outs signers where
    l: "Lock b keys 0 (cfg_TxFee b) StateUnlocked None change 0 = Inr (ins, outs, signers)"
    by (auto simp add: NewClaimTx_def split: sum.splits)
  from assms cfg l obtain kc1 where
    k1: "depositSigners b keys depositTxIDs [] = Inr kc1"
    by (auto simp add: NewClaimTx_def split: sum.splits)
  from assms cfg l k1 obtain claimableSignersKC where
    k2: "claimableSigners b keys claimableOwnerIDs kc1 = Inr claimableSignersKC"
    by (auto simp add: NewClaimTx_def split: sum.splits)
  from assms cfg l k1 k2 have
    n: "NewSigned b
          (ClaimTx \<lparr>NetworkID = ctx_NetworkID b, BlockchainID = ctx_ChainID b,
                    Ins = ins, Outs = outs\<rparr>
             depositTxIDs claimableOwnerIDs amountToClaim claimTo)
          (signers @ [claimableSignersKC]) = Inr tx"
    by (auto simp add: NewClaimTx_def split: sum.splits)
  then have "Unsigned tx =
      ClaimTx \<lparr>NetworkID = ctx_NetworkID b, BlockchainID = ctx_ChainID b,
               Ins = ins, Outs = outs\<rparr>
        depositTxIDs claimableOwnerIDs amountToClaim claimTo"
    and "Creds tx = signers @ [claimableSignersKC]"
    by (auto simp add: NewSigned_def split: option.splits)
  with l k1 k2 show ?thesis by auto
qed

theorem claim_tx_one_trailing_credential_witness:
  "NewClaimTx exampleBuilder [21, 22] [31] [5, 5, 5] None [21, 22, 31] None =
     (Some \<lparr>Unsigned =
               ClaimTx \<lparr>NetworkID = 0, BlockchainID = 0, Ins = [feeInput], Outs = []\<rparr>
                 [21, 22] [31] [5, 5, 5] None,
            Creds = [[21], [21, 22, 31]]\<rparr>, None) \<and>
   (\<exists>signers claimableSignersKC.
      Creds \<lparr>Unsigned =
               ClaimTx \<lparr>NetworkID = 0, BlockchainID = 0, Ins = [feeInput], Outs = []\<rparr>
                 [21, 22] [31] [5, 5, 5] None,
             Creds = [[21], [21, 22, 31]]\<rparr> = signers @ [claimableSignersKC] \<and>
      Lock exampleBuilder [21, 22, 31] 0 10 StateUnlocked None None 0
        = Inr ([feeInput], [], signers))"
proof -
  have 1: "NewClaimTx exampleBuilder [21, 22] [31] [5, 5, 5] None [21, 22, 31] None =
     (Some \<lparr>Unsigned =
               ClaimTx \<lparr>NetworkID = 0, BlockchainID = 0, Ins = [feeInput], Outs = []\<rparr>
                 [21, 22] [31] [5, 5, 5] None,
            Creds = [[21], [21, 22, 31]]\<rparr>, None)"
    by (simp add: exampleBuilder_def NewClaimTx_def NewSigned_def getDepositRewardsOwner_def
        ownerOf_def feeInput_def emptyBaseTx_def)
  have fee: "cfg_TxFee exampleBuilder = 10"
    by (simp add: exampleBuilder_def)
  from claim_tx_one_trailing_credential [OF 1, unfolded fee]
  obtain ins outs signers kc1 claimableSignersKC where
    l: "Lock exampleBuilder [21, 22, 31] 0 10 StateUnlocked None None 0
          = Inr (ins, outs, signers)"
    and u: "Unsigned \<lparr>Unsigned =
               ClaimTx \<lparr>NetworkID = 0, BlockchainID = 0, Ins = [feeInput], Outs = []\<rparr>
                 [21, 22] [31] [5, 5, 5] None,
             Creds = [[21], [21, 22, 31]]\<rparr> =
          ClaimTx \<lparr>NetworkID = ctx_NetworkID exampleBuilder,
                   BlockchainID = ctx_ChainID exampleBuilder, Ins = ins, Outs = outs\<rparr>
            [21, 22] [31] [5, 5, 5] None"
    and c: "Creds \<lparr>Unsigned =
               ClaimTx \<lparr>NetworkID = 0, BlockchainID = 0, Ins = [feeInput], Outs = []\<rparr>
                 [21, 22] [31] [5, 5, 5] None,
             Creds = [[21], [21, 22, 31]]\<rparr> = signers @ [claimableSignersKC]"
    by blast
  from u have "ins = [feeInput]" "outs = []" by simp_all
  with l c 1 show ?thesis by blast
qed

section \<open>The inputs of a rewards import\<close>

lemma importInputs_Inr:
  "importInputs b utxos = Inr ins \<longleftrightarrow>
     (\<forall>u \<in> set utxos. inputOf b u \<noteq> None) \<and> ins = List.map_filter (inputOf b) utxos"
proof (induction utxos arbitrary: ins)
  case Nil
  show ?case by (auto simp add: List.map_filter_def)
next
  case (Cons u us)
  show ?case
  proof (cases "inputOf b u")
    case None
    then show ?thesis
      by (auto simp add: inputOf_def split: sum.splits InputIntf.splits)
  next
    case (Some i)
    then obtain input where
      sp: "treasury_Spend b (Out u) (clk_Unix b) = Inr (IsTransferableIn input)"
      and i: "i = \<lparr>in_UTXOID = InputID u, in_Asset = AssetID u, In = input\<rparr>"
      by (auto simp add: inputOf_def split: sum.splits InputIntf.splits)
    have m: "List.map_filter (inputOf b) (u # us) = i # List.map_filter (inputOf b) us"
      by (simp add: List.map_filter_def Some)
    show ?thesis
    proof (cases "importInputs b us")
      case (Inl e)
      then have "\<not> (\<forall>u \<in> set us. inputOf b u \<noteq> None)"
        using Cons.IH [of "List.map_filter (inputOf b) us"] by simp
      then show ?thesis
        by (simp add: sp Inl)
    next
      case (Inr ins')
      then have "(\<forall>u \<in> set us. inputOf b u \<noteq> None) \<and>
          ins' = List.map_filter (inputOf b) us"
        using Cons.IH [of ins'] by simp
      then show ?thesis
        by (auto simp add: sp Inr m i Some)
    qed
  qed
qed

lemma inputOf_ids:
  "inputOf b u = Some i \<Longrightarrow> in_UTXOID i = InputID u \<and> in_Asset i = AssetID u"
  by (auto simp add: inputOf_def split: sum.splits InputIntf.splits)

lemma map_filter_all:
  "\<forall>x \<in> set xs. f x \<noteq> None \<Longrightarrow> map Some (List.map_filter f xs) = map f xs"
  by (induction xs) (auto simp add: List.map_filter_def)

lemma importableUTXOs_eq:
  "importableUTXOs b allUTXOsBytes =
     map timed_UTXO
       (filter (\<lambda>u. Timestamp u \<le> clk_Unix b - SharedMemorySyncBound b)
          (List.map_filter (Codec_Unmarshal b) allUTXOsBytes))"
  unfolding importableUTXOs_def List.map_filter_def
  by (induction allUTXOsBytes) (auto split: option.splits)

text \<open>
  Claim C8. Let lock mode be on and the shared memory answer with byte strings. The UTXOs
  selected are those of the byte strings that decode as timed UTXOs, in their order, whose
  timestamp is at most \<open>now - SharedMemorySyncBound\<close> (on \<open>uint64\<close>); a byte string
  that does not decode is passed over. When none is selected the call returns
  \<open>errNoUTXOsForImport\<close> and no transaction. When some are selected, \<open>Spend\<close> gives
  an input for each of them and \<open>txs.NewSigned\<close> does not fail, the call returns the
  transaction whose inputs are, sorted, the inputs that spend the selected UTXOs, one for
  each, beside the result of its verification. When \<open>Spend\<close> gives no input for a
  selected UTXO, the call returns no transaction. So every transaction the call returns
  has one input for each selected UTXO, with that UTXO's ID and asset, and no other.
\<close>

theorem rewards_import_inputs:
  assumes cfg: "state_CaminoConfig b = Inr caminoGenesis"
    and mode: "LockModeBondDeposit caminoGenesis"
    and mem: "SharedMemory_Indexed b = Inr allUTXOsBytes"
    and sel: "selected =
        map timed_UTXO
          (filter (\<lambda>u. Timestamp u \<le> clk_Unix b - SharedMemorySyncBound b)
             (List.map_filter (Codec_Unmarshal b) allUTXOsBytes))"
    and ins: "ins = SortTransferableInputs (List.map_filter (inputOf b) selected)"
  shows "(selected = [] \<longrightarrow> NewRewardsImportTx b = (None, Some ErrNoUTXOsForImport)) \<and>
         (selected \<noteq> [] \<and> (\<forall>u \<in> set selected. inputOf b u \<noteq> None) \<and>
          NewSigned_error b (Unsigned (importTx b ins)) [] = None \<longrightarrow>
            NewRewardsImportTx b = (Some (importTx b ins), SyntacticVerify b (importTx b ins)) \<and>
            mset (map Some ins) = mset (map (inputOf b) selected) \<and>
            sorted (map in_UTXOID ins)) \<and>
         ((\<exists>u \<in> set selected. inputOf b u = None) \<longrightarrow> fst (NewRewardsImportTx b) = None) \<and>
         (\<forall>tx e. NewRewardsImportTx b = (Some tx, e) \<longrightarrow>
            tx = importTx b ins \<and>
            mset (map (\<lambda>i. (in_UTXOID i, in_Asset i)) ins) =
              mset (map (\<lambda>u. (InputID u, AssetID u)) selected))"
proof -
  have s: "importableUTXOs b allUTXOsBytes = selected"
    unfolding sel by (rule importableUTXOs_eq)
  have 1: "NewRewardsImportTx b = (None, Some ErrNoUTXOsForImport)" if "selected = []"
    using mode that by (simp add: NewRewardsImportTx_def cfg mem s)
  have all: "mset (map Some ins) = mset (map (inputOf b) selected)"
    if a: "\<forall>u \<in> set selected. inputOf b u \<noteq> None"
  proof -
    have "mset ins = mset (List.map_filter (inputOf b) selected)"
      unfolding ins by (simp add: SortTransferableInputs_def)
    then have "mset (map Some ins) = mset (map Some (List.map_filter (inputOf b) selected))"
      by (metis mset_map)
    then show ?thesis
      by (simp only: map_filter_all [OF a])
  qed
  have srt: "sorted (map in_UTXOID ins)"
    unfolding ins by (simp add: SortTransferableInputs_def)
  have 2: "NewRewardsImportTx b = (Some (importTx b ins), SyntacticVerify b (importTx b ins))"
    if ne: "selected \<noteq> []" and a: "\<forall>u \<in> set selected. inputOf b u \<noteq> None"
      and n: "NewSigned_error b (Unsigned (importTx b ins)) [] = None"
  proof -
    have i: "importInputs b selected = Inr (List.map_filter (inputOf b) selected)"
      using a by (simp add: importInputs_Inr)
    show ?thesis
      using mode ne n
      by (simp add: NewRewardsImportTx_def cfg mem s i NewSigned_def importTx_def
          ins [symmetric])
  qed
  have 3: "fst (NewRewardsImportTx b) = None" if "\<exists>u \<in> set selected. inputOf b u = None"
  proof -
    have "\<And>ins0. importInputs b selected \<noteq> Inr ins0"
      using that by (auto simp add: importInputs_Inr)
    then obtain e where "importInputs b selected = Inl e"
      by (cases "importInputs b selected") auto
    then show ?thesis
      using mode
      by (simp add: NewRewardsImportTx_def cfg mem s Let_def)
  qed
  have 4: "tx = importTx b ins \<and>
      mset (map (\<lambda>i. (in_UTXOID i, in_Asset i)) ins) =
        mset (map (\<lambda>u. (InputID u, AssetID u)) selected)"
    if r: "NewRewardsImportTx b = (Some tx, e)" for tx e
  proof -
    from r mode obtain ins0 where
      i: "importInputs b selected = Inr ins0"
      and n: "NewSigned b (RewardsImportTx \<lparr>NetworkID = ctx_NetworkID b,
                BlockchainID = ctx_ChainID b,
                Ins = SortTransferableInputs ins0, Outs = []\<rparr>) [] = Inr tx"
      by (auto simp add: NewRewardsImportTx_def cfg mem s Let_def
          split: sum.splits if_splits)
    from i have a: "\<forall>u \<in> set selected. inputOf b u \<noteq> None"
      and ins0: "ins0 = List.map_filter (inputOf b) selected"
      by (simp_all add: importInputs_Inr)
    from n have tx: "tx = importTx b ins"
      by (auto simp add: NewSigned_def importTx_def ins ins0 split: option.splits)
    have "map (\<lambda>i. (in_UTXOID i, in_Asset i)) (List.map_filter (inputOf b) us) =
        map (\<lambda>u. (InputID u, AssetID u)) us"
      if "\<forall>u \<in> set us. inputOf b u \<noteq> None" for us
      using that
    proof (induction us)
      case Nil
      show ?case by (simp add: List.map_filter_def)
    next
      case (Cons u us)
      then obtain i where i: "inputOf b u = Some i" by auto
      show ?case
        using Cons inputOf_ids [OF i] by (simp add: List.map_filter_def i)
    qed
    from this [OF a] have
      "mset (map (\<lambda>i. (in_UTXOID i, in_Asset i)) (List.map_filter (inputOf b) selected)) =
         mset (map (\<lambda>u. (InputID u, AssetID u)) selected)"
      by simp
    moreover have "mset ins = mset (List.map_filter (inputOf b) selected)"
      unfolding ins by (simp add: SortTransferableInputs_def)
    ultimately have "mset (map (\<lambda>i. (in_UTXOID i, in_Asset i)) ins) =
        mset (map (\<lambda>u. (InputID u, AssetID u)) selected)"
      by (metis mset_map)
    with tx show ?thesis by simp
  qed
  have c2: "selected \<noteq> [] \<and> (\<forall>u \<in> set selected. inputOf b u \<noteq> None) \<and>
      NewSigned_error b (Unsigned (importTx b ins)) [] = None \<longrightarrow>
        NewRewardsImportTx b = (Some (importTx b ins), SyntacticVerify b (importTx b ins)) \<and>
        mset (map Some ins) = mset (map (inputOf b) selected) \<and>
        sorted (map in_UTXOID ins)"
    using 2 all srt by simp
  have c4: "\<forall>tx e. NewRewardsImportTx b = (Some tx, e) \<longrightarrow>
      tx = importTx b ins \<and>
      mset (map (\<lambda>i. (in_UTXOID i, in_Asset i)) ins) =
        mset (map (\<lambda>u. (InputID u, AssetID u)) selected)"
    using 4 by simp
  have c1: "selected = [] \<longrightarrow> NewRewardsImportTx b = (None, Some ErrNoUTXOsForImport)"
    using 1 by simp
  have c3: "(\<exists>u \<in> set selected. inputOf b u = None) \<longrightarrow> fst (NewRewardsImportTx b) = None"
    using 3 by simp
  show ?thesis
    by (rule conjI [OF c1 conjI [OF c2 conjI [OF c3 c4]]])
qed

text \<open>
  The instance: of four byte strings the first does not decode, the second is UTXO 9 of
  time 500, the third UTXO 8 of time 900 and the fourth UTXO 7 of time 100; at time 1000
  with a bound of 500 UTXOs 9 and 7 are selected, and the transaction spends UTXO 7 and
  UTXO 9, in this order. A builder whose shared memory holds the first byte string alone
  returns \<open>errNoUTXOsForImport\<close>.
\<close>

theorem rewards_import_inputs_witness:
  "state_CaminoConfig importBuilder
     = Inr \<lparr>VerifyNodeSignature = False, LockModeBondDeposit = True\<rparr> \<and>
   SharedMemory_Indexed importBuilder = Inr [[0], [3], [2], [1]] \<and>
   map timed_UTXO
     (filter (\<lambda>u. Timestamp u \<le> clk_Unix importBuilder - SharedMemorySyncBound importBuilder)
        (List.map_filter (Codec_Unmarshal importBuilder) [[0], [3], [2], [1]]))
     = [plainUTXO 9, plainUTXO 7] \<and>
   inputOf importBuilder (plainUTXO 9) =
     Some \<lparr>in_UTXOID = 9, in_Asset = 0, In = \<lparr>in_Amount = 100, SigIndices = []\<rparr>\<rparr> \<and>
   inputOf importBuilder (plainUTXO 7) =
     Some \<lparr>in_UTXOID = 7, in_Asset = 0, In = \<lparr>in_Amount = 100, SigIndices = []\<rparr>\<rparr> \<and>
   SortTransferableInputs
     (List.map_filter (inputOf importBuilder) [plainUTXO 9, plainUTXO 7]) =
     [\<lparr>in_UTXOID = 7, in_Asset = 0, In = \<lparr>in_Amount = 100, SigIndices = []\<rparr>\<rparr>,
      \<lparr>in_UTXOID = 9, in_Asset = 0, In = \<lparr>in_Amount = 100, SigIndices = []\<rparr>\<rparr>] \<and>
   NewRewardsImportTx importBuilder =
     (Some \<lparr>Unsigned =
              RewardsImportTx
                \<lparr>NetworkID = 0, BlockchainID = 0,
                 Ins = [\<lparr>in_UTXOID = 7, in_Asset = 0,
                         In = \<lparr>in_Amount = 100, SigIndices = []\<rparr>\<rparr>,
                        \<lparr>in_UTXOID = 9, in_Asset = 0,
                         In = \<lparr>in_Amount = 100, SigIndices = []\<rparr>\<rparr>],
                 Outs = []\<rparr>,
            Creds = []\<rparr>, None) \<and>
   NewRewardsImportTx (importBuilder\<lparr>SharedMemory_Indexed := Inr [[0]]\<rparr>)
     = (None, Some ErrNoUTXOsForImport)"
proof -
  let ?i7 = "\<lparr>in_UTXOID = 7, in_Asset = 0, In = \<lparr>in_Amount = 100, SigIndices = []\<rparr>\<rparr>"
  let ?i9 = "\<lparr>in_UTXOID = 9, in_Asset = 0, In = \<lparr>in_Amount = 100, SigIndices = []\<rparr>\<rparr>"
  let ?b0 = "importBuilder\<lparr>SharedMemory_Indexed := Inr [[0]]\<rparr>"
  have cfg: "state_CaminoConfig importBuilder
      = Inr \<lparr>VerifyNodeSignature = False, LockModeBondDeposit = True\<rparr>"
    by (simp add: importBuilder_def exampleBuilder_def)
  have cfg': "state_CaminoConfig ?b0
      = Inr \<lparr>VerifyNodeSignature = False, LockModeBondDeposit = True\<rparr>"
    by (simp add: importBuilder_def exampleBuilder_def)
  have mode: "LockModeBondDeposit \<lparr>VerifyNodeSignature = False, LockModeBondDeposit = True\<rparr>"
    by simp
  have mem: "SharedMemory_Indexed importBuilder = Inr [[0], [3], [2], [1]]"
    by (simp add: importBuilder_def)
  have mem': "SharedMemory_Indexed ?b0 = Inr [[0]]"
    by simp
  have sel: "[plainUTXO 9, plainUTXO 7] = map timed_UTXO
      (filter (\<lambda>u. Timestamp u \<le> clk_Unix importBuilder - SharedMemorySyncBound importBuilder)
         (List.map_filter (Codec_Unmarshal importBuilder) [[0], [3], [2], [1]]))"
    by (simp add: importBuilder_def exampleBuilder_def List.map_filter_def)
  have sel': "[] = map timed_UTXO
      (filter (\<lambda>u. Timestamp u \<le> clk_Unix ?b0 - SharedMemorySyncBound ?b0)
         (List.map_filter (Codec_Unmarshal ?b0) [[0]]))"
    by (simp add: importBuilder_def exampleBuilder_def List.map_filter_def)
  have i9: "inputOf importBuilder (plainUTXO 9) = Some ?i9"
    by (simp add: inputOf_def importBuilder_def exampleBuilder_def plainUTXO_def
        amountOf_def)
  have i7: "inputOf importBuilder (plainUTXO 7) = Some ?i7"
    by (simp add: inputOf_def importBuilder_def exampleBuilder_def plainUTXO_def
        amountOf_def)
  have ins: "[?i7, ?i9] = SortTransferableInputs
      (List.map_filter (inputOf importBuilder) [plainUTXO 9, plainUTXO 7])"
    by (simp add: List.map_filter_def i9 i7 SortTransferableInputs_def)
  have sgn: "NewSigned_error importBuilder (Unsigned (importTx importBuilder [?i7, ?i9])) []
      = None"
    by (simp add: importBuilder_def exampleBuilder_def)
  have ver: "SyntacticVerify importBuilder (importTx importBuilder [?i7, ?i9]) = None"
    by (simp add: importBuilder_def exampleBuilder_def)
  have tx: "importTx importBuilder [?i7, ?i9] =
      \<lparr>Unsigned = RewardsImportTx \<lparr>NetworkID = 0, BlockchainID = 0, Ins = [?i7, ?i9],
                                    Outs = []\<rparr>,
       Creds = []\<rparr>"
    by (simp add: importTx_def importBuilder_def exampleBuilder_def)
  note t = rewards_import_inputs [OF cfg mode mem sel ins]
  note t' = rewards_import_inputs [OF cfg' mode mem' sel' refl]
  have pre: "[plainUTXO 9, plainUTXO 7] \<noteq> [] \<and>
      (\<forall>u \<in> set [plainUTXO 9, plainUTXO 7]. inputOf importBuilder u \<noteq> None) \<and>
      NewSigned_error importBuilder (Unsigned (importTx importBuilder [?i7, ?i9])) [] = None"
    using i9 i7 sgn by simp
  have v0: "NewRewardsImportTx importBuilder =
      (Some (importTx importBuilder [?i7, ?i9]),
       SyntacticVerify importBuilder (importTx importBuilder [?i7, ?i9]))"
    using t [THEN conjunct2, THEN conjunct1, THEN mp, OF pre] by (rule conjunct1)
  have v: "NewRewardsImportTx importBuilder =
      (Some \<lparr>Unsigned = RewardsImportTx \<lparr>NetworkID = 0, BlockchainID = 0,
                                          Ins = [?i7, ?i9], Outs = []\<rparr>,
             Creds = []\<rparr>, None)"
    using v0 [unfolded ver, unfolded tx] .
  have n: "NewRewardsImportTx ?b0 = (None, Some ErrNoUTXOsForImport)"
    using t' [THEN conjunct1] by simp
  show ?thesis
    by (intro conjI) (fact cfg mem sel [symmetric] i9 i7 ins [symmetric] v n)+
qed

text \<open>
  A remark on the second loop of \<open>NewRewardsImportTx\<close>: when the value \<open>Spend\<close>
  returns is not a \<open>TransferableIn\<close>, the function returns the error of \<open>Spend\<close>,
  which is nil there, so it returns neither a transaction nor an error.
\<close>

lemma rewards_import_neither_tx_nor_error:
  "NewRewardsImportTx (exampleBuilder\<lparr>treasury_Spend := (\<lambda>out now. Inr NotTransferableIn)\<rparr>)
     = (None, None)"
  by (simp add: exampleBuilder_def NewRewardsImportTx_def importableUTXOs_def
      List.map_filter_def)
end
